theory Spec2Isabelle
  imports Complex_Main "HOL-Library.Product_Lexorder"
begin

section \<open>Python string operations used by the program\<close>

text \<open>
  Hrefs, URLs and page text are Python \<open>str\<close> values; they are modelled as \<open>string\<close>
  (lists of characters), one character of the model for one character of the Python string,
  so that \<open>length\<close> is Python's \<open>len\<close>. The operations below are the ones \<open>main.py\<close> applies
  to them.
\<close>

text \<open>\<open>s.startswith(p)\<close>\<close>

definition startswith :: "string \<Rightarrow> string \<Rightarrow> bool" where
  "startswith s p = (take (length p) s = p)"

text \<open>\<open>s.startswith(ps)\<close> for a tuple \<open>ps\<close> of prefixes\<close>

definition startswith_any :: "string \<Rightarrow> string list \<Rightarrow> bool" where
  "startswith_any s ps = list_ex (startswith s) ps"

text \<open>\<open>sub in s\<close>: \<open>sub\<close> occurs in \<open>s\<close> as a contiguous substring\<close>

fun py_in :: "string \<Rightarrow> string \<Rightarrow> bool" where
  "py_in sub [] = (sub = [])"
| "py_in sub (c # cs) = (startswith (c # cs) sub \<or> py_in sub cs)"

text \<open>\<open>s.split(c)\<close> for a one-character separator; the result is never empty\<close>

fun split_char :: "char \<Rightarrow> string \<Rightarrow> string list" where
  "split_char c [] = [[]]"
| "split_char c (x # xs) =
     (if x = c then [] # split_char c xs
      else (case split_char c xs of
              [] \<Rightarrow> [[x]]
            | s # ss \<Rightarrow> (x # s) # ss))"

text \<open>\<open>s.lower()\<close>, on the ASCII letters\<close>

definition lower_char :: "char \<Rightarrow> char" where
  "lower_char c =
     (let n = (of_char c :: nat) in if 65 \<le> n \<and> n \<le> 90 then char_of (n + 32) else c)"

definition lower :: "string \<Rightarrow> string" where
  "lower s = map lower_char s"

section \<open>Post classification (\<open>delete_one\<close>, lines 565--573 and the branch order)\<close>

datatype PostKind = Image | Album | Other

text \<open>\<open>is_album = href.startswith("/a/") or href.startswith("/gallery/")\<close>\<close>

definition is_album :: "string \<Rightarrow> bool" where
  "is_album href = (startswith href ''/a/'' \<or> startswith href ''/gallery/'')"

text \<open>
  \<open>is_image = "/image/" in href or (href.startswith("/") and
  len(href.split("/")[-1]) == 7 and not is_album)\<close>
\<close>

definition is_image :: "string \<Rightarrow> bool" where
  "is_image href =
     (py_in ''/image/'' href \<or>
      (startswith href ''/'' \<and> length (last (split_char CHR ''/'' href)) = 7 \<and> \<not> is_album href))"

text \<open>
  The branch that \<open>delete_one\<close> takes: \<open>if is_image: ... elif is_album: ... else: ...\<close>.
\<close>

definition classify :: "string \<Rightarrow> PostKind" where
  "classify href = (if is_image href then Image else if is_album href then Album else Other)"

text \<open>
  The classifier as the specification words it: album prefix first, then the image shape
  (an \<open>/image/\<close> substring or a final path segment of 7 characters), else Other.
\<close>

definition spec_classify :: "string \<Rightarrow> PostKind" where
  "spec_classify href =
     (if startswith href ''/a/'' \<or> startswith href ''/gallery/'' then Album
      else if py_in ''/image/'' href \<or> length (last (split_char CHR ''/'' href)) = 7 then Image
      else Other)"

section \<open>Link extraction (\<open>find_post_links_sorted\<close>, lines 362--366 and 413--453)\<close>

text \<open>\<open>BAD_PREFIXES\<close>\<close>

definition BAD_PREFIXES :: "string list" where
  "BAD_PREFIXES =
     [''/upload'', ''/notifications'', ''/settings'', ''/account/'',
      ''/user/'', ''/t/'', ''/topics'', ''/privacy'', ''/terms'', ''/arcade'']"

text \<open>The character class \<open>[A-Za-z0-9]\<close>\<close>

definition alnum :: "char \<Rightarrow> bool" where
  "alnum c =
     (let n = (of_char c :: nat)
      in (65 \<le> n \<and> n \<le> 90) \<or> (97 \<le> n \<and> n \<le> 122) \<or> (48 \<le> n \<and> n \<le> 57))"

text \<open>
  \<open>POST_HREF_PAT.search(href)\<close> for the pattern
  \<open>^/(gallery/|a/|post/|image/|[A-Za-z0-9]{5,})\<close>: anchored at the start of the string.
\<close>

definition POST_HREF_PAT :: "string \<Rightarrow> bool" where
  "POST_HREF_PAT href =
     (case href of
        [] \<Rightarrow> False
      | c # r \<Rightarrow>
          c = CHR ''/'' \<and>
          (startswith r ''gallery/'' \<or> startswith r ''a/'' \<or> startswith r ''post/'' \<or>
           startswith r ''image/'' \<or> 5 \<le> length (takeWhile alnum r)))"

text \<open>
  What the browsing engine answers for one anchor matched by the selector: \<open>is_visible()\<close>
  (\<open>None\<close> when the call raises), the \<open>href\<close> attribute (\<open>None\<close> when absent) and
  \<open>bounding_box()\<close> (\<open>None\<close> when the call raises, \<open>Some None\<close> when the element is detached,
  otherwise the \<open>x\<close> and \<open>y\<close> of the box). Coordinates are finite floats, hence rationals.
\<close>

record anchor =
  a_visible :: "bool option"
  a_href :: "string option"
  a_box :: "(rat \<times> rat) option option"

text \<open>An extracted link: the tuple \<open>(href, x, y)\<close>.\<close>

type_synonym post_link = "string \<times> rat \<times> rat"

definition link_href :: "post_link \<Rightarrow> string" where
  "link_href t = fst t"

text \<open>Python's \<open>round(v)\<close> on a float: to the nearest integer, ties to the even one.\<close>

definition py_round :: "rat \<Rightarrow> int" where
  "py_round v =
     (let f = \<lfloor>v\<rfloor>; d = v - of_int f
      in if d < 1 / 2 then f else if 1 / 2 < d then f + 1 else if even f then f else f + 1)"

text \<open>The sort key \<open>lambda t: (round(t[2]), round(t[1]))\<close>\<close>

definition sort_key_of :: "post_link \<Rightarrow> int \<times> int" where
  "sort_key_of t = (case t of (href, x, y) \<Rightarrow> (py_round y, py_round x))"

text \<open>\<open>(a.get_attribute("href") or "").split("#")[0].split("?")[0]\<close>\<close>

definition normalize_href :: "string option \<Rightarrow> string" where
  "normalize_href h =
     hd (split_char CHR ''?'' (hd (split_char CHR ''#'' (case h of None \<Rightarrow> [] | Some s \<Rightarrow> s))))"

text \<open>The body of the loop over the anchors: \<open>None\<close> is \<open>continue\<close>, \<open>Some t\<close> is \<open>items.append(t)\<close>.\<close>

definition candidate :: "anchor \<Rightarrow> post_link option" where
  "candidate a =
     (if a_visible a \<noteq> Some True then None
      else let href = normalize_href (a_href a)
           in if \<not> startswith href ''/'' \<or> startswith_any href BAD_PREFIXES then None
              else if \<not> POST_HREF_PAT href then None
              else (case a_box a of
                      Some (Some (x, y)) \<Rightarrow> Some (href, x, y)
                    | _ \<Rightarrow> None))"

text \<open>The de-duplication loop with its \<open>seen\<close> set.\<close>

fun dedupe :: "string set \<Rightarrow> post_link list \<Rightarrow> post_link list" where
  "dedupe seen [] = []"
| "dedupe seen (t # ts) =
     (if link_href t \<notin> seen then t # dedupe (insert (link_href t) seen) ts
      else dedupe seen ts)"

text \<open>
  The function on the anchors that the selector matched, in document order. \<open>list.sort\<close> is
  stable, as \<open>sort_key\<close> is; tuples of integers compare lexicographically.
\<close>

definition links_sorted :: "anchor list \<Rightarrow> post_link list" where
  "links_sorted anchors = dedupe {} (sort_key sort_key_of (List.map_filter candidate anchors))"

section \<open>The browsing engine\<close>

text \<open>
  The program drives a browser page through Playwright. The page is outside the program, so
  the model takes it as a parameter: a type \<open>'w\<close> of page states (the "world") and the
  engine's answers as functions of it. Calls that act on the page or take time return the
  next world; calls that read the page are functions of the world. A call that raises is a
  value of the result type, so every \<open>try ... except\<close> of the source is a case distinction,
  and an exception that no handler of the loop catches ends the run as \<open>Raised\<close>. An interrupt
  from the keyboard is not part of the model.
\<close>

text \<open>
  \<open>name=\<close> of \<open>get_by_role\<close>: a string, or \<open>re.compile(s, re.I)\<close>.
\<close>

datatype name_pat = Name string | NameRe string

text \<open>
  The element handles the program builds: \<open>page.locator(sel).first\<close>,
  \<open>page.get_by_role(role, name=...).first\<close> and the \<open>i\<close>-th element of
  \<open>page.locator(sel).all()\<close>.
\<close>

datatype locator = Css string | ByRole string name_pat | NthOf string nat

text \<open>\<open>page.goto\<close> returns, raises \<open>TimeoutError\<close>, or raises another exception.\<close>

datatype goto_result = Loaded | TimeoutError | OtherError

datatype scroll_target = Top | Bottom

record 'w engine =
  e_sleep :: "nat \<Rightarrow> 'w \<Rightarrow> 'w"
    \<comment> \<open>\<open>time.sleep\<close>, in milliseconds: the page may change meanwhile\<close>
  e_goto :: "string \<Rightarrow> bool \<Rightarrow> nat \<Rightarrow> 'w \<Rightarrow> goto_result \<times> 'w"
    \<comment> \<open>\<open>page.goto(url, wait_until="domcontentloaded"?, timeout)\<close>\<close>
  e_is_visible :: "locator \<Rightarrow> nat option \<Rightarrow> 'w \<Rightarrow> bool option \<times> 'w"
    \<comment> \<open>\<open>locator.is_visible(timeout?)\<close>; \<open>None\<close> when it raises\<close>
  e_click :: "locator \<Rightarrow> nat \<Rightarrow> 'w \<Rightarrow> bool \<times> 'w"
    \<comment> \<open>\<open>locator.click(timeout)\<close>; \<open>False\<close> when it raises\<close>
  e_wait_for_load_state :: "nat \<Rightarrow> 'w \<Rightarrow> bool \<times> 'w"
    \<comment> \<open>\<open>page.wait_for_load_state("domcontentloaded", timeout)\<close>; \<open>False\<close> when it raises\<close>
  e_scroll_to :: "scroll_target \<Rightarrow> 'w \<Rightarrow> bool \<times> 'w"
    \<comment> \<open>\<open>page.evaluate\<close> of \<open>window.scrollTo\<close>; \<open>False\<close> when it raises\<close>
  e_url :: "'w \<Rightarrow> string"
    \<comment> \<open>\<open>page.url\<close>\<close>
  e_content :: "'w \<Rightarrow> string option"
    \<comment> \<open>\<open>page.content()\<close>; \<open>None\<close> when it raises\<close>
  e_get_attribute :: "locator \<Rightarrow> string \<Rightarrow> 'w \<Rightarrow> string option option"
    \<comment> \<open>\<open>locator.get_attribute(name)\<close>; \<open>None\<close> when it raises, \<open>Some None\<close> for Python's \<open>None\<close>\<close>
  e_all_count :: "string \<Rightarrow> 'w \<Rightarrow> nat option"
    \<comment> \<open>\<open>len(page.locator(sel).all())\<close>; \<open>None\<close> when \<open>all()\<close> raises\<close>
  e_scroll_height :: "'w \<Rightarrow> int option"
    \<comment> \<open>\<open>page.evaluate("() => document.body.scrollHeight")\<close>; \<open>None\<close> when it raises\<close>
  e_anchors :: "'w \<Rightarrow> anchor list option"
    \<comment> \<open>the anchors matched by the selector of \<open>find_post_links_sorted\<close>, in document
       order; \<open>None\<close> when \<open>count()\<close> or \<open>get_attribute\<close> raises\<close>

text \<open>
  What the program did to the page is recorded beside the world: every call of \<open>click\<close>,
  \<open>goto\<close> and \<open>scrollTo\<close>, whether or not it returned.
\<close>

datatype action = Click locator | Goto string | ScrollTo scroll_target

record 'w page =
  world :: 'w
  actions :: "action list"

definition sleep :: "'w engine \<Rightarrow> nat \<Rightarrow> 'w page \<Rightarrow> 'w page" where
  "sleep E ms pg = pg\<lparr>world := e_sleep E ms (world pg)\<rparr>"

definition goto :: "'w engine \<Rightarrow> string \<Rightarrow> bool \<Rightarrow> nat \<Rightarrow> 'w page \<Rightarrow> goto_result \<times> 'w page" where
  "goto E url wait timeout_ms pg =
     (case e_goto E url wait timeout_ms (world pg) of
        (r, w) \<Rightarrow> (r, \<lparr>world = w, actions = actions pg @ [Goto url]\<rparr>))"

definition is_visible :: "'w engine \<Rightarrow> locator \<Rightarrow> nat option \<Rightarrow> 'w page \<Rightarrow> bool option \<times> 'w page" where
  "is_visible E loc timeout pg =
     (case e_is_visible E loc timeout (world pg) of (r, w) \<Rightarrow> (r, pg\<lparr>world := w\<rparr>))"

definition click :: "'w engine \<Rightarrow> locator \<Rightarrow> nat \<Rightarrow> 'w page \<Rightarrow> bool \<times> 'w page" where
  "click E loc timeout pg =
     (case e_click E loc timeout (world pg) of
        (ok, w) \<Rightarrow> (ok, \<lparr>world = w, actions = actions pg @ [Click loc]\<rparr>))"

definition wait_for_load_state :: "'w engine \<Rightarrow> nat \<Rightarrow> 'w page \<Rightarrow> bool \<times> 'w page" where
  "wait_for_load_state E timeout pg =
     (case e_wait_for_load_state E timeout (world pg) of (ok, w) \<Rightarrow> (ok, pg\<lparr>world := w\<rparr>))"

definition scroll_to :: "'w engine \<Rightarrow> scroll_target \<Rightarrow> 'w page \<Rightarrow> bool \<times> 'w page" where
  "scroll_to E target pg =
     (case e_scroll_to E target (world pg) of
        (ok, w) \<Rightarrow> (ok, \<lparr>world = w, actions = actions pg @ [ScrollTo target]\<rparr>))"

section \<open>Navigation helpers (lines 360--411)\<close>

definition get_posts_url :: "string \<Rightarrow> string" where
  "get_posts_url username = ''https://imgur.com/user/'' @ username @ ''/posts''"

text \<open>
  \<open>safe_goto\<close>: a \<open>TimeoutError\<close> of the first \<open>goto\<close> is caught and the navigation retried;
  any other exception, and any exception of the retry, leaves the function (\<open>Inl\<close>).
\<close>

definition safe_goto :: "'w engine \<Rightarrow> string \<Rightarrow> nat \<Rightarrow> 'w page \<Rightarrow> 'w page + 'w page" where
  "safe_goto E url timeout_ms pg =
     (case goto E url True timeout_ms pg of
        (Loaded, pg1) \<Rightarrow> Inr (sleep E 400 pg1)
      | (OtherError, pg1) \<Rightarrow> Inl pg1
      | (TimeoutError, pg1) \<Rightarrow>
          (case goto E url False timeout_ms pg1 of
             (Loaded, pg2) \<Rightarrow> Inr (sleep E 400 pg2)
           | (_, pg2) \<Rightarrow> Inl pg2))"

text \<open>
  The pattern \<open>if el.is_visible(t): el.click(timeout=c); ...; done = True\<close> inside
  \<open>try ... except Exception\<close>: the result is whether the click returned.
\<close>

definition visible_click :: "'w engine \<Rightarrow> locator \<Rightarrow> nat option \<Rightarrow> nat \<Rightarrow> 'w page \<Rightarrow> bool \<times> 'w page" where
  "visible_click E loc vis_timeout click_timeout pg =
     (case is_visible E loc vis_timeout pg of
        (Some True, pg1) \<Rightarrow> click E loc click_timeout pg1
      | (_, pg1) \<Rightarrow> (False, pg1))"

text \<open>
  A loop over alternative locators that stops at the first one whose visible-and-click
  succeeds, then sleeps \<open>pause\<close> milliseconds.
\<close>

fun visible_click_first ::
  "'w engine \<Rightarrow> nat option \<Rightarrow> nat \<Rightarrow> nat \<Rightarrow> locator list \<Rightarrow> 'w page \<Rightarrow> bool \<times> 'w page" where
  "visible_click_first E vt ct pause [] pg = (False, pg)"
| "visible_click_first E vt ct pause (l # ls) pg =
     (case visible_click E l vt ct pg of
        (True, pg1) \<Rightarrow> (True, sleep E pause pg1)
      | (False, pg1) \<Rightarrow> visible_click_first E vt ct pause ls pg1)"

definition all_tab_selectors :: "locator list" where
  \<open>all_tab_selectors =
     [ByRole ''tab'' (NameRe (''^'' @ [CHR 0x5C] @ ''s*all'' @ [CHR 0x5C] @ ''s*$'')),
      Css ''a:has-text('All')'', Css ''button:has-text('All')'',
      Css (''text=/^'' @ [CHR 0x5C] @ ''s*All'' @ [CHR 0x5C] @ ''s*$/i'')]\<close>

text \<open>
  \<open>select_all_tab\<close>: the role-based tab first, then three selectors; every exception is
  caught. (\<open>CHR 0x5C\<close> is the backslash of the regular expressions above.)
\<close>

definition select_all_tab :: "'w engine \<Rightarrow> 'w page \<Rightarrow> 'w page" where
  "select_all_tab E pg = snd (visible_click_first E None 1500 500 all_tab_selectors pg)"

definition go_to_posts_all :: "'w engine \<Rightarrow> string \<Rightarrow> 'w page \<Rightarrow> 'w page + 'w page" where
  "go_to_posts_all E username pg =
     (case safe_goto E (get_posts_url username) 30000 pg of
        Inl pg1 \<Rightarrow> Inl pg1
      | Inr pg1 \<Rightarrow> Inr (sleep E 400 (select_all_tab E pg1)))"

definition scroll_to_top :: "'w engine \<Rightarrow> 'w page \<Rightarrow> 'w page + 'w page" where
  "scroll_to_top E pg =
     (case scroll_to E Top pg of
        (True, pg1) \<Rightarrow> Inr (sleep E 200 pg1)
      | (False, pg1) \<Rightarrow> Inl pg1)"

text \<open>\<open>find_post_links_sorted(page)\<close>: \<open>None\<close> when an unguarded engine call raises.\<close>

definition find_post_links_sorted :: "'w engine \<Rightarrow> 'w page \<Rightarrow> post_link list option" where
  "find_post_links_sorted E pg = map_option links_sorted (e_anchors E (world pg))"

section \<open>Clicking (\<open>safe_click\<close>, lines 455--470)\<close>

text \<open>
  In dry-run mode a visible element is reported as clicked without being clicked; an
  exception of \<open>is_visible\<close> or \<open>click\<close> is caught and gives \<open>False\<close>.
\<close>

definition safe_click :: "'w engine \<Rightarrow> locator \<Rightarrow> bool \<Rightarrow> nat \<Rightarrow> 'w page \<Rightarrow> bool \<times> 'w page" where
  "safe_click E loc dry_run timeout pg =
     (case is_visible E loc (Some timeout) pg of
        (Some True, pg1) \<Rightarrow> if dry_run then (True, pg1) else click E loc timeout pg1
      | (_, pg1) \<Rightarrow> (False, pg1))"

text \<open>
  The selector loops of the drivers: \<open>for selector in ...: if safe_click(...): sleep; flag =
  True; break\<close>.
\<close>

fun safe_click_first ::
  "'w engine \<Rightarrow> bool \<Rightarrow> nat \<Rightarrow> nat \<Rightarrow> locator list \<Rightarrow> 'w page \<Rightarrow> bool \<times> 'w page" where
  "safe_click_first E dry_run timeout pause [] pg = (False, pg)"
| "safe_click_first E dry_run timeout pause (l # ls) pg =
     (case safe_click E l dry_run timeout pg of
        (True, pg1) \<Rightarrow> (True, sleep E pause pg1)
      | (False, pg1) \<Rightarrow> safe_click_first E dry_run timeout pause ls pg1)"

section \<open>Deleting a post container (\<open>delete_post_container\<close>, lines 472--552)\<close>

definition delete_post_selectors :: "locator list" where
  \<open>delete_post_selectors =
     [Css ''button:has-text("Delete post")'',
      Css ''text="Delete post"'',
      Css ''[role="button"]:has-text("Delete post")'',
      Css ''button[aria-label*="Delete post" i]'',
      Css ''a:has-text("Delete post")'',
      Css ''*:has-text("Delete post"):visible'']\<close>

definition delete_post_role :: locator where
  "delete_post_role = ByRole ''button'' (NameRe ''Delete post'')"

text \<open>
  The locators of the confirmation loop (lines 525--537). The loop unpacks each entry as
  \<open>selector_type, *args\<close>, so for \<open>('role', 'button', 'Delete Post Only')\<close> the list \<open>args\<close> is
  \<open>['button', 'Delete Post Only']\<close> and the locator built is
  \<open>page.get_by_role('button', name=args[0])\<close>, a button named \<open>button\<close>, for both role
  entries; for a \<open>'selector'\<close> entry \<open>args[0]\<close> is the selector.
\<close>

definition confirmation_selectors :: "locator list" where
  \<open>confirmation_selectors =
     [ByRole ''button'' (Name ''button''),
      ByRole ''button'' (Name ''button''),
      Css ''button:has-text("Delete Post Only")'',
      Css ''button:has-text("Delete Post")'']\<close>

text \<open>
  Lines 481--517: the value of \<open>delete_post_clicked\<close>, from the selector loop and, when that
  fails, the role-based locator.
\<close>

definition click_delete_post :: "'w engine \<Rightarrow> bool \<Rightarrow> 'w page \<Rightarrow> bool \<times> 'w page" where
  "click_delete_post E dry_run pg =
     (case safe_click_first E dry_run 2000 1000 delete_post_selectors pg of
        (True, pg1) \<Rightarrow> (True, pg1)
      | (False, pg1) \<Rightarrow> safe_click_first E dry_run 2000 1000 [delete_post_role] pg1)"

text \<open>
  The result is \<open>confirmation_clicked or delete_post_clicked\<close> when the "Delete post"
  button was clicked, \<open>False\<close> otherwise.
\<close>

definition delete_post_container :: "'w engine \<Rightarrow> bool \<Rightarrow> 'w page \<Rightarrow> bool \<times> 'w page" where
  "delete_post_container E dry_run pg =
     (case click_delete_post E dry_run (sleep E 500 pg) of
        (delete_post_clicked, pg1) \<Rightarrow>
          if delete_post_clicked then
            (case safe_click_first E dry_run 2000 1000 confirmation_selectors (sleep E 1500 pg1) of
               (confirmation_clicked, pg2) \<Rightarrow> (confirmation_clicked \<or> delete_post_clicked, pg2))
          else (False, pg1))"

section \<open>The image branch of \<open>delete_one\<close> (lines 573--679)\<close>

definition delete_image_button :: locator where
  "delete_image_button = ByRole ''button'' (Name ''Delete image'')"

definition yes_delete_it_button :: locator where
  "yes_delete_it_button = ByRole ''button'' (Name ''Yes, Delete It'')"

definition cancel_selectors :: "locator list" where
  \<open>cancel_selectors =
     [Css ''button:has-text("Cancel")'',
      Css ''text="Cancel"'',
      Css ''[role="button"]:has-text("Cancel")'',
      Css ''button[aria-label*="Cancel" i]'',
      Css ''button:has-text("Close")'',
      Css ''[role="dialog"] button:has-text("Cancel")'']\<close>

definition cancel_role :: locator where
  "cancel_role = ByRole ''button'' (NameRe ''Cancel'')"

text \<open>Step 2 in dry-run mode (lines 615--659): dismiss the dialog, then report \<open>(True, 1)\<close>.\<close>

definition dismiss_dialog :: "'w engine \<Rightarrow> 'w page \<Rightarrow> (bool \<times> int) \<times> 'w page" where
  "dismiss_dialog E pg =
     (let pg1 = sleep E 600 pg;
          (clicked_sel, pg2) = visible_click_first E (Some 2000) 2000 300 cancel_selectors pg1;
          (cancel_clicked, pg3) =
             (if \<not> clicked_sel then visible_click_first E (Some 2000) 2000 300 [cancel_role] pg2
              else (True, pg2));
          pg4 = (if \<not> cancel_clicked then sleep E 300 pg3 else pg3)
      in ((True, 1), pg4))"

text \<open>Step 2 in live mode (lines 660--679): click "Yes, Delete It".\<close>

definition confirm_image_deletion :: "'w engine \<Rightarrow> bool \<Rightarrow> 'w page \<Rightarrow> (bool \<times> int) \<times> 'w page" where
  "confirm_image_deletion E dry_run pg =
     (case is_visible E yes_delete_it_button (Some 3000) pg of
        (Some True, pg1) \<Rightarrow>
          (case safe_click E yes_delete_it_button dry_run 2000 pg1 of
             (True, pg2) \<Rightarrow> ((True, 1), sleep E 300 pg2)
           | (False, pg2) \<Rightarrow> ((False, 0), pg2))
      | (_, pg1) \<Rightarrow> ((False, 0), pg1))"

definition delete_image :: "'w engine \<Rightarrow> bool \<Rightarrow> 'w page \<Rightarrow> (bool \<times> int) \<times> 'w page" where
  "delete_image E dry_run pg =
     (case is_visible E delete_image_button (Some 3000) pg of
        (Some True, pg1) \<Rightarrow>
          (if dry_run then
             (case click E delete_image_button 3000 pg1 of
                (True, pg2) \<Rightarrow> dismiss_dialog E (sleep E 600 pg2)
              | (False, pg2) \<Rightarrow> ((False, 0), pg2))
           else
             (case safe_click E delete_image_button dry_run 2000 pg1 of
                (True, pg2) \<Rightarrow> confirm_image_deletion E dry_run (sleep E 600 pg2)
              | (False, pg2) \<Rightarrow> ((False, 0), pg2)))
      | (_, pg1) \<Rightarrow> ((False, 0), pg1))"

section \<open>The album branch of \<open>delete_one\<close> (lines 681--715)\<close>

text \<open>The count of \<open>...\<close> glyphs, kept only when positive; it is used for a message only.\<close>

definition album_image_count :: "'w engine \<Rightarrow> 'w page \<Rightarrow> nat option" where
  \<open>album_image_count E pg =
     (case e_all_count E ''text="..."'' (world pg) of
        Some n \<Rightarrow> if 0 < n then Some n else None
      | None \<Rightarrow> None)\<close>

definition delete_album :: "'w engine \<Rightarrow> bool \<Rightarrow> 'w page \<Rightarrow> (bool \<times> int) \<times> 'w page" where
  "delete_album E dry_run pg =
     (let pg1 = sleep E 1200 pg;
          image_count = album_image_count E pg1;
          (deleted, pg2) = delete_post_container E dry_run pg1
      in if deleted then ((True, 0), pg2) else ((False, 0), pg2))"

section \<open>Confirmation and verification (lines 835--924)\<close>

definition confirm_selectors :: "locator list" where
  \<open>confirm_selectors =
     [Css ''button:has-text("Yes, Delete It")'',
      Css ''button:has-text("Delete")'',
      Css ''button:has-text("Confirm")'',
      Css ''button[data-action="confirm"]'',
      Css ''[role="dialog"] button:has-text("Delete")'',
      Css ''[role="dialog"] button:has-text("Confirm")'']\<close>

definition confirm_roles :: "locator list" where
  "confirm_roles =
     map (\<lambda>label. ByRole ''button'' (NameRe label)) [''Yes, Delete It'', ''Delete'', ''Confirm'']"

text \<open>Lines 839--873: the value of \<open>confirmed\<close>.\<close>

definition confirm_deletion :: "'w engine \<Rightarrow> bool \<Rightarrow> 'w page \<Rightarrow> bool \<times> 'w page" where
  "confirm_deletion E dry_run pg =
     (let pg1 = sleep E 800 pg;
          (confirmed, pg2) = safe_click_first E dry_run 2000 1000 confirm_selectors pg1
      in if \<not> confirmed then safe_click_first E dry_run 2000 1000 confirm_roles pg2
         else (True, pg2))"

text \<open>\<open>"404" in c or "not found" in c or "deleted" in c\<close>, on the lowered page content\<close>

definition removal_text :: "string \<Rightarrow> bool" where
  "removal_text c = (py_in ''404'' c \<or> py_in ''not found'' c \<or> py_in ''deleted'' c)"

text \<open>\<open>"404" in c or "not found" in c or "page doesn't exist" in c\<close>\<close>

definition not_found_text :: "string \<Rightarrow> bool" where
  \<open>not_found_text c = (py_in ''404'' c \<or> py_in ''not found'' c \<or> py_in ''page doesn't exist'' c)\<close>

text \<open>
  Lines 875--897, entered when \<open>not confirmed\<close>: the result is \<open>True\<close> where the source
  returns \<open>(True, 1)\<close>, and \<open>False\<close> where it falls through.
\<close>

definition check_unconfirmed :: "'w engine \<Rightarrow> string \<Rightarrow> 'w page \<Rightarrow> bool \<times> 'w page" where
  "check_unconfirmed E url pg =
     (let pg1 = sleep E 2000 pg;
          current_url = e_url E (world pg1)
      in if (case e_content E (world pg1) of Some c \<Rightarrow> removal_text (lower c) | None \<Rightarrow> False)
         then (True, pg1)
         else if \<not> py_in url current_url then
           (case wait_for_load_state E 3000 pg1 of
              (True, pg2) \<Rightarrow>
                (case e_content E (world pg2) of
                   Some c \<Rightarrow> (\<not> py_in ''404'' (lower c), pg2)
                 | None \<Rightarrow> (False, pg2))
            | (False, pg2) \<Rightarrow> (False, pg2))
         else (False, pg1))"

text \<open>Lines 920--924.\<close>

definition final_result :: "bool \<Rightarrow> bool \<Rightarrow> bool \<times> int" where
  "final_result confirmed deleted = (if confirmed \<or> deleted then (True, 1) else (False, 0))"

text \<open>
  Lines 899--924: re-navigate to the post. A \<open>TimeoutError\<close> returns \<open>(True, 1)\<close>; any other
  exception is passed over and the final result is returned.
\<close>

definition final_verification ::
  "'w engine \<Rightarrow> string \<Rightarrow> bool \<Rightarrow> bool \<Rightarrow> 'w page \<Rightarrow> (bool \<times> int) \<times> 'w page" where
  "final_verification E url confirmed deleted pg =
     (if confirmed \<or> deleted then
        (let pg1 = sleep E 1500 pg
         in case goto E url True 5000 pg1 of
              (TimeoutError, pg2) \<Rightarrow> ((True, 1), pg2)
            | (OtherError, pg2) \<Rightarrow> (final_result confirmed deleted, pg2)
            | (Loaded, pg2) \<Rightarrow>
                (let pg3 = sleep E 500 pg2
                 in case e_content E (world pg3) of
                      None \<Rightarrow> (final_result confirmed deleted, pg3)
                    | Some c \<Rightarrow>
                        if not_found_text (lower c) then ((True, 1), pg3)
                        else if py_in url (e_url E (world pg3)) then ((False, 0), pg3)
                        else (final_result confirmed deleted, pg3)))
      else (final_result confirmed deleted, pg))"

text \<open>The verification stage: lines 875--924, given \<open>confirmed\<close> and \<open>deleted\<close>.\<close>

definition verify ::
  "'w engine \<Rightarrow> string \<Rightarrow> bool \<Rightarrow> bool \<Rightarrow> 'w page \<Rightarrow> (bool \<times> int) \<times> 'w page" where
  "verify E url confirmed deleted pg =
     (if \<not> confirmed then
        (case check_unconfirmed E url pg of
           (True, pg1) \<Rightarrow> ((True, 1), pg1)
         | (False, pg1) \<Rightarrow> final_verification E url confirmed deleted pg1)
      else final_verification E url confirmed deleted pg)"

text \<open>Lines 835--924: what follows the three branches.\<close>

definition confirm_and_verify ::
  "'w engine \<Rightarrow> string \<Rightarrow> bool \<Rightarrow> bool \<Rightarrow> 'w page \<Rightarrow> (bool \<times> int) \<times> 'w page" where
  "confirm_and_verify E url dry_run deleted pg =
     (if \<not> deleted then ((False, 0), pg)
      else case confirm_deletion E dry_run pg of
             (confirmed, pg1) \<Rightarrow> verify E url confirmed deleted pg1)"

section \<open>The menu branch of \<open>delete_one\<close> (lines 716--833)\<close>

definition three_dots_selectors :: "locator list" where
  \<open>three_dots_selectors =
     [Css ''button[aria-label*="more" i]'',
      Css ''button[aria-label*="More" i]'',
      Css ''button[aria-label*="options" i]'',
      Css ''[aria-label*="more options" i]'',
      Css ''button:has([class*="more"])'',
      Css ''button:has([class*="menu"])'',
      Css ''button:has([class*="dots"])'',
      Css ''[role="button"]:has([class*="more"])'',
      Css (''button:has-text("'' @ [CHR 0xE2, CHR 0x8B, CHR 0xAF] @ ''")''),
      Css ''button:has-text("...")'']\<close>

text \<open>
  The scan of all buttons (lines 743--757) over the indices of \<open>page.locator('button').all()\<close>;
  an exception of \<open>get_attribute\<close> skips the button.
\<close>

fun scan_buttons :: "'w engine \<Rightarrow> bool \<Rightarrow> nat list \<Rightarrow> 'w page \<Rightarrow> bool \<times> 'w page" where
  "scan_buttons E dry_run [] pg = (False, pg)"
| "scan_buttons E dry_run (i # is) pg =
     (case e_get_attribute E (NthOf ''button'' i) ''aria-label'' (world pg) of
        None \<Rightarrow> scan_buttons E dry_run is pg
      | Some attr \<Rightarrow>
          (let aria_label = lower (case attr of None \<Rightarrow> [] | Some a \<Rightarrow> a)
           in if py_in ''more'' aria_label \<or> py_in ''menu'' aria_label \<or> py_in ''options'' aria_label
              then (case safe_click E (NthOf ''button'' i) dry_run 500 pg of
                      (True, pg1) \<Rightarrow> (True, sleep E 800 pg1)
                    | (False, pg1) \<Rightarrow> scan_buttons E dry_run is pg1)
              else scan_buttons E dry_run is pg))"

definition open_menu :: "'w engine \<Rightarrow> bool \<Rightarrow> 'w page \<Rightarrow> bool \<times> 'w page" where
  "open_menu E dry_run pg =
     (case safe_click_first E dry_run 1500 800 three_dots_selectors pg of
        (True, pg1) \<Rightarrow> (True, pg1)
      | (False, pg1) \<Rightarrow>
          (case e_all_count E ''button'' (world pg1) of
             None \<Rightarrow> (False, pg1)
           | Some n \<Rightarrow> scan_buttons E dry_run [0..<n] pg1))"

definition delete_image_selectors :: "locator list" where
  \<open>delete_image_selectors =
     [Css ''text="Delete image"'',
      Css ''button:has-text("Delete image")'',
      Css ''[role="menuitem"]:has-text("Delete image")'',
      Css ''[role="menu"] button:has-text("Delete image")'',
      Css ''a:has-text("Delete image")'',
      Css ''*:has-text("Delete image"):visible'']\<close>

definition delete_image_menuitem :: locator where
  "delete_image_menuitem = ByRole ''menuitem'' (NameRe ''Delete image'')"

definition delete_from_account_selectors :: "locator list" where
  \<open>delete_from_account_selectors =
     [Css ''button.DeleteImageDialog-confirm--accountRemove'',
      Css ''button:has-text("Delete from account")'',
      Css ''text="Delete from account"'',
      Css ''[role="dialog"] button:has-text("Delete from account")'',
      Css ''button[aria-label*="Delete from account" i]'',
      Css ''[role="dialog"] button:has([class*="red"])'',
      Css ''[role="dialog"] button:has([class*="danger"])'']\<close>

definition delete_from_account_role :: locator where
  "delete_from_account_role = ByRole ''button'' (NameRe ''Delete from account'')"

definition delete_other :: "'w engine \<Rightarrow> string \<Rightarrow> bool \<Rightarrow> 'w page \<Rightarrow> (bool \<times> int) \<times> 'w page" where
  "delete_other E url dry_run pg =
     (case open_menu E dry_run pg of
        (False, pg1) \<Rightarrow> ((False, 0), pg1)
      | (True, pg1) \<Rightarrow>
          (let (clicked_sel, pg2) = safe_click_first E dry_run 1500 1000 delete_image_selectors pg1;
               (clicked_delete_image, pg3) =
                  (if \<not> clicked_sel
                   then safe_click_first E dry_run 1500 1000 [delete_image_menuitem] pg2
                   else (True, pg2))
           in if \<not> clicked_delete_image then ((False, 0), pg3)
              else
                (let (deleted_sel, pg4) =
                        safe_click_first E dry_run 2000 1000 delete_from_account_selectors pg3;
                     (deleted, pg5) =
                        (if \<not> deleted_sel
                         then safe_click_first E dry_run 2000 1000 [delete_from_account_role] pg4
                         else (True, pg4))
                 in confirm_and_verify E url dry_run deleted pg5)))"

section \<open>\<open>delete_one\<close> (lines 554--924)\<close>

text \<open>
  \<open>Inl\<close>: the initial \<open>safe_goto\<close> raised and no outcome is returned. \<open>Inr\<close>: the returned pair
  \<open>(success, images_deleted)\<close> and the page afterwards.
\<close>

definition delete_one ::
  "'w engine \<Rightarrow> string \<Rightarrow> bool \<Rightarrow> 'w page \<Rightarrow> 'w page + ((bool \<times> int) \<times> 'w page)" where
  "delete_one E href dry_run pg =
     (let url = ''https://imgur.com'' @ href
      in case safe_goto E url 20000 pg of
           Inl pg1 \<Rightarrow> Inl pg1
         | Inr pg1 \<Rightarrow>
             (let pg2 = sleep E 800 pg1
              in if is_image href then Inr (delete_image E dry_run pg2)
                 else if is_album href then Inr (delete_album E dry_run pg2)
                 else Inr (delete_other E url dry_run pg2)))"

section \<open>The orchestration loop (\<open>main\<close>, lines 965--1021)\<close>

text \<open>
  The state of the loop: the page, the counter \<open>processed\<close>, the set \<open>seen_heights\<close>, and the
  lines the loop prints for each link (\<open>Processing href ...\<close> followed by the outcome), kept
  as a journal of \<open>(href, ok, images_count)\<close>.
\<close>

record 'w run_state =
  rs_page :: "'w page"
  processed :: int
  seen_heights :: "int set"
  journal :: "(string \<times> bool \<times> int) list"

text \<open>Lines 988--1001: the new value of \<open>processed\<close> after an outcome.\<close>

definition count_outcome :: "bool \<times> int \<Rightarrow> int \<Rightarrow> int" where
  "count_outcome r n =
     (case r of (ok, images_count) \<Rightarrow>
        if ok then (if images_count = 0 then n + 1 else n + images_count) else n + 1)"

text \<open>
  The \<open>for href, x, y in links\<close> loop (lines 985--1010), for any per-link operation \<open>D\<close> in
  the place of \<open>delete_one\<close>. \<open>Inl\<close>: an exception left the loop; \<open>Inr\<close>: the loop ended, by
  exhaustion of the links or by \<open>break\<close> at the cap.
\<close>

fun process_links_with ::
  "(string \<Rightarrow> 'w page \<Rightarrow> 'w page + ((bool \<times> int) \<times> 'w page)) \<Rightarrow> 'w engine \<Rightarrow> string \<Rightarrow> int \<Rightarrow>
   post_link list \<Rightarrow> 'w run_state \<Rightarrow> 'w run_state + 'w run_state" where
  "process_links_with D E username max_to_process [] st = Inr st"
| "process_links_with D E username max_to_process (l # ls) st =
     (case D (link_href l) (rs_page st) of
        Inl pg1 \<Rightarrow> Inl (st\<lparr>rs_page := pg1\<rparr>)
      | Inr (r, pg1) \<Rightarrow>
          (let st1 = st\<lparr>processed := count_outcome r (processed st),
                        journal := journal st @ [(link_href l, r)]\<rparr>;
               pg2 = sleep E 300 pg1
           in case go_to_posts_all E username pg2 of
                Inl pg3 \<Rightarrow> Inl (st1\<lparr>rs_page := pg3\<rparr>)
              | Inr pg3 \<Rightarrow>
                  (case scroll_to_top E pg3 of
                     Inl pg4 \<Rightarrow> Inl (st1\<lparr>rs_page := pg4\<rparr>)
                   | Inr pg4 \<Rightarrow>
                       if max_to_process \<le> processed st1 then Inr (st1\<lparr>rs_page := pg4\<rparr>)
                       else process_links_with D E username max_to_process ls
                              (st1\<lparr>rs_page := pg4\<rparr>))))"

text \<open>The loop of the program: the operation is \<open>delete_one(page, href, dry_run, username)\<close>.\<close>

definition process_links ::
  "'w engine \<Rightarrow> string \<Rightarrow> bool \<Rightarrow> int \<Rightarrow> post_link list \<Rightarrow> 'w run_state \<Rightarrow>
   'w run_state + 'w run_state" where
  "process_links E username dry_run max_to_process ls st =
     process_links_with (\<lambda>href pg. delete_one E href dry_run pg) E username max_to_process ls st"

text \<open>
  How the \<open>while\<close> loop is left: its condition fails, one of its two \<open>break\<close>s ("No more posts
  found. Exiting." and "No further content loaded. Finished."), or an exception.
\<close>

datatype exit = CapReached | NoMorePosts | NoFurtherContent | Raised

datatype 'w step = Continue "'w run_state" | Break exit "'w run_state"

text \<open>
  Lines 976--983 and 1013--1019: read the scroll height; leave the loop when it was seen
  before, otherwise remember it, scroll to the bottom and sleep.
\<close>

definition load_more :: "'w engine \<Rightarrow> nat \<Rightarrow> exit \<Rightarrow> 'w run_state \<Rightarrow> 'w step" where
  "load_more E pause ex st =
     (case e_scroll_height E (world (rs_page st)) of
        None \<Rightarrow> Break Raised st
      | Some last_h \<Rightarrow>
          if last_h \<in> seen_heights st then Break ex st
          else (case scroll_to E Bottom (rs_page st) of
                  (False, pg1) \<Rightarrow>
                    Break Raised (st\<lparr>rs_page := pg1, seen_heights := insert last_h (seen_heights st)\<rparr>)
                | (True, pg1) \<Rightarrow>
                    Continue (st\<lparr>rs_page := sleep E pause pg1,
                                 seen_heights := insert last_h (seen_heights st)\<rparr>)))"

text \<open>One iteration of the \<open>while\<close> body (lines 973--1019).\<close>

definition loop_body :: "'w engine \<Rightarrow> string \<Rightarrow> bool \<Rightarrow> int \<Rightarrow> 'w run_state \<Rightarrow> 'w step" where
  "loop_body E username dry_run max_to_process st =
     (case find_post_links_sorted E (rs_page st) of
        None \<Rightarrow> Break Raised st
      | Some links \<Rightarrow>
          if links = [] then load_more E 1200 NoMorePosts st
          else (case process_links E username dry_run max_to_process links st of
                  Inl st1 \<Rightarrow> Break Raised st1
                | Inr st1 \<Rightarrow> load_more E 600 NoFurtherContent st1))"

text \<open>
  The \<open>while processed < max_to_process\<close> loop. Nothing bounds the number of iterations (a
  page may grow forever without showing a link), so the model counts them down; \<open>None\<close> means
  that the given number of iterations did not suffice.
\<close>

fun main_loop ::
  "nat \<Rightarrow> 'w engine \<Rightarrow> string \<Rightarrow> bool \<Rightarrow> int \<Rightarrow> 'w run_state \<Rightarrow> (exit \<times> 'w run_state) option" where
  "main_loop 0 E username dry_run max_to_process st = None"
| "main_loop (Suc k) E username dry_run max_to_process st =
     (if processed st < max_to_process then
        (case loop_body E username dry_run max_to_process st of
           Break ex st1 \<Rightarrow> Some (ex, st1)
         | Continue st1 \<Rightarrow> main_loop k E username dry_run max_to_process st1)
      else Some (CapReached, st))"

text \<open>Lines 965--1021: the initial state, the first navigation, and the loop.\<close>

definition run ::
  "nat \<Rightarrow> 'w engine \<Rightarrow> string \<Rightarrow> bool \<Rightarrow> int \<Rightarrow> 'w \<Rightarrow> (exit \<times> 'w run_state) option" where
  "run k E username dry_run max_to_process w =
     (let st = \<lparr>rs_page = \<lparr>world = w, actions = []\<rparr>, processed = 0, seen_heights = {},
                journal = []\<rparr>
      in case go_to_posts_all E username (rs_page st) of
           Inl pg1 \<Rightarrow> Some (Raised, st\<lparr>rs_page := pg1\<rparr>)
         | Inr pg1 \<Rightarrow>
             (case scroll_to_top E pg1 of
                Inl pg2 \<Rightarrow> Some (Raised, st\<lparr>rs_page := pg2\<rparr>)
              | Inr pg2 \<Rightarrow> main_loop k E username dry_run max_to_process (st\<lparr>rs_page := pg2\<rparr>)))"

section \<open>Reading the record of actions\<close>

text \<open>The locators that were clicked, in order.\<close>

fun clicks :: "action list \<Rightarrow> locator list" where
  "clicks [] = []"
| "clicks (Click l # as) = l # clicks as"
| "clicks (a # as) = clicks as"

text \<open>
  \<open>only_clicks A pg pg'\<close>: the page \<open>pg'\<close> continues the record of \<open>pg\<close>, and every click added
  is on a locator of \<open>A\<close>.
\<close>

definition only_clicks :: "locator set \<Rightarrow> 'w page \<Rightarrow> 'w page \<Rightarrow> bool" where
  "only_clicks A pg pg' = (\<exists>ext. actions pg' = actions pg @ ext \<and> set (clicks ext) \<subseteq> A)"

text \<open>The page after \<open>delete_one\<close>, whether it returned or raised.\<close>

definition resulting_page :: "'w page + ((bool \<times> int) \<times> 'w page) \<Rightarrow> 'w page" where
  "resulting_page x = (case x of Inl pg \<Rightarrow> pg | Inr (r, pg) \<Rightarrow> pg)"

text \<open>The controls that dismiss a dialog: the targets of the cancel loop of the image branch.\<close>

definition cancel_controls :: "locator list" where
  "cancel_controls = cancel_selectors @ [cancel_role]"

text \<open>
  The controls that commit a deletion: "Yes, Delete It" on the image page, the choices of the
  album's dialog, "Delete from account" in the menu flow, and the generic confirmation
  buttons.
\<close>

definition affirmative_controls :: "locator list" where
  "affirmative_controls =
     yes_delete_it_button # confirmation_selectors @ delete_from_account_selectors @
     delete_from_account_role # confirm_selectors @ confirm_roles"

text \<open>The state after the loop over the links, and after one iteration of the \<open>while\<close> body.\<close>

definition after_links :: "'w run_state + 'w run_state \<Rightarrow> 'w run_state" where
  "after_links x = (case x of Inl st \<Rightarrow> st | Inr st \<Rightarrow> st)"

fun after_step :: "'w step \<Rightarrow> 'w run_state" where
  "after_step (Continue st) = st"
| "after_step (Break ex st) = st"

section \<open>A simulated site\<close>

text \<open>
  A concrete engine on which the program can be run: the world is the current URL and the
  number of navigations so far; what is visible, the page text, the anchors and the scroll
  height depend on the URL; whether a navigation loads depends on its number and its URL.
  Clicks and scrolls return without changing the site.
\<close>

record site =
  s_visible :: "string \<Rightarrow> locator \<Rightarrow> bool"
  s_content :: "string \<Rightarrow> string option"
  s_loads :: "nat \<Rightarrow> string \<Rightarrow> goto_result"
  s_anchors :: "string \<Rightarrow> anchor list"
  s_height :: "string \<Rightarrow> int"

definition site_engine :: "site \<Rightarrow> (string \<times> nat) engine" where
  "site_engine S =
     \<lparr>e_sleep = (\<lambda>ms w. w),
      e_goto = (\<lambda>url wait t w.
         (s_loads S (snd w) url,
          (if s_loads S (snd w) url = Loaded then url else fst w, Suc (snd w)))),
      e_is_visible = (\<lambda>loc t w. (Some (s_visible S (fst w) loc), w)),
      e_click = (\<lambda>loc t w. (True, w)),
      e_wait_for_load_state = (\<lambda>t w. (True, w)),
      e_scroll_to = (\<lambda>target w. (True, w)),
      e_url = fst,
      e_content = (\<lambda>w. s_content S (fst w)),
      e_get_attribute = (\<lambda>loc name w. Some None),
      e_all_count = (\<lambda>sel w. Some 0),
      e_scroll_height = (\<lambda>w. Some (s_height S (fst w))),
      e_anchors = (\<lambda>w. Some (s_anchors S (fst w)))\<rparr>"

text \<open>
  A site for the end-to-end scenario: the album pages \<open>/a/1\<close> and \<open>/gallery/2\<close> show a
  "Delete post" button, the image page \<open>/IMAGE01\<close> shows "Delete image" and "Cancel"; the
  grid of user \<open>u\<close> shows the given anchors; every navigation loads; the scroll height is
  constant.
\<close>

definition grid_site :: "anchor list \<Rightarrow> site" where
  \<open>grid_site anchors =
     \<lparr>s_visible = (\<lambda>url loc.
         if url = ''https://imgur.com/a/1'' \<or> url = ''https://imgur.com/gallery/2''
         then loc = Css ''button:has-text("Delete post")''
         else if url = ''https://imgur.com/IMAGE01''
         then loc = delete_image_button \<or> loc = Css ''button:has-text("Cancel")''
         else False),
      s_content = (\<lambda>url. Some []),
      s_loads = (\<lambda>n url. Loaded),
      s_anchors = (\<lambda>url. if url = ''https://imgur.com/user/u/posts'' then anchors else []),
      s_height = (\<lambda>url. 1000)\<rparr>\<close>

text \<open>
  The three anchors of the scenario, with the positions \<open>(0,0)\<close>, \<open>(0,150)\<close>, \<open>(150,0)\<close> read
  as \<open>(x, y)\<close> and as \<open>(y, x)\<close>.
\<close>

definition anchors_xy :: "anchor list" where
  "anchors_xy =
     [\<lparr>a_visible = Some True, a_href = Some ''/a/1'', a_box = Some (Some (0, 0))\<rparr>,
      \<lparr>a_visible = Some True, a_href = Some ''/IMAGE01'', a_box = Some (Some (0, 150))\<rparr>,
      \<lparr>a_visible = Some True, a_href = Some ''/gallery/2'', a_box = Some (Some (150, 0))\<rparr>]"

definition anchors_yx :: "anchor list" where
  "anchors_yx =
     [\<lparr>a_visible = Some True, a_href = Some ''/a/1'', a_box = Some (Some (0, 0))\<rparr>,
      \<lparr>a_visible = Some True, a_href = Some ''/IMAGE01'', a_box = Some (Some (150, 0))\<rparr>,
      \<lparr>a_visible = Some True, a_href = Some ''/gallery/2'', a_box = Some (Some (0, 150))\<rparr>]"

text \<open>The state of the loop when the \<open>while\<close> is first entered on that site.\<close>

definition grid_start :: "(string \<times> nat) run_state" where
  "grid_start = \<lparr>rs_page = \<lparr>world = (get_posts_url ''u'', 1),
                      actions = [Goto (get_posts_url ''u''), ScrollTo Top]\<rparr>,
          processed = 0, seen_heights = {}, journal = []\<rparr>"

text \<open>
  A site for the menu flow: on the post page the overflow button, the "Delete image" entry
  and the "Delete from account" button are visible, no confirmation button is; the page
  text carries no indicator; the first navigation loads and every later one times out.
\<close>

definition menu_site :: site where
  \<open>menu_site =
     \<lparr>s_visible = (\<lambda>url loc.
         url = ''https://imgur.com/post/abc'' \<and>
         (loc = Css ''button[aria-label*="more" i]'' \<or> loc = Css ''text="Delete image"'' \<or>
          loc = Css ''button.DeleteImageDialog-confirm--accountRemove'')),
      s_content = (\<lambda>url. Some ''<html>My post</html>''),
      s_loads = (\<lambda>n url. if n = 0 then Loaded else TimeoutError),
      s_anchors = (\<lambda>url. []),
      s_height = (\<lambda>url. 0)\<rparr>\<close>


text \<open>A page on which nothing has been done yet.\<close>

definition blank_page :: "(string \<times> nat) page" where
  "blank_page = \<lparr>world = ([], 0), actions = []\<rparr>"

text \<open>
  The states in which the scenario ends, for the two readings of the positions; and a grid
  with a single album, with the states after its first and second pass.
\<close>

definition grid_final_xy :: "(string \<times> nat) run_state" where
  \<open>grid_final_xy =
     \<lparr>rs_page = \<lparr>world = (get_posts_url ''u'', 7),
                  actions = [Goto (get_posts_url ''u''), ScrollTo Top,
                    Goto ''https://imgur.com/a/1'', Goto (get_posts_url ''u''), ScrollTo Top,
                    Goto ''https://imgur.com/gallery/2'', Goto (get_posts_url ''u''), ScrollTo Top,
                    Goto ''https://imgur.com/IMAGE01'', Click delete_image_button,
                    Click (Css ''button:has-text("Cancel")''),
                    Goto (get_posts_url ''u''), ScrollTo Top, ScrollTo Bottom]\<rparr>,
      processed = 3, seen_heights = {1000},
      journal = [(''/a/1'', True, 0), (''/gallery/2'', True, 0), (''/IMAGE01'', True, 1)]\<rparr>\<close>

definition grid_final_yx :: "(string \<times> nat) run_state" where
  \<open>grid_final_yx =
     \<lparr>rs_page = \<lparr>world = (get_posts_url ''u'', 7),
                  actions = [Goto (get_posts_url ''u''), ScrollTo Top,
                    Goto ''https://imgur.com/a/1'', Goto (get_posts_url ''u''), ScrollTo Top,
                    Goto ''https://imgur.com/IMAGE01'', Click delete_image_button,
                    Click (Css ''button:has-text("Cancel")''),
                    Goto (get_posts_url ''u''), ScrollTo Top,
                    Goto ''https://imgur.com/gallery/2'', Goto (get_posts_url ''u''), ScrollTo Top,
                    ScrollTo Bottom]\<rparr>,
      processed = 3, seen_heights = {1000},
      journal = [(''/a/1'', True, 0), (''/IMAGE01'', True, 1), (''/gallery/2'', True, 0)]\<rparr>\<close>






text \<open>A DOM snapshot used to exercise the extractor.\<close>

definition example_anchors :: "anchor list" where
  "example_anchors =
     [\<lparr>a_visible = Some True, a_href = Some ''/IMAGE01'', a_box = Some (Some (0, 150))\<rparr>,
      \<lparr>a_visible = Some True, a_href = Some ''/a/1?x=1#top'', a_box = Some (Some (3 / 2, 1 / 2))\<rparr>,
      \<lparr>a_visible = Some True, a_href = Some ''/gallery/2'', a_box = Some (Some (150, 0))\<rparr>,
      \<lparr>a_visible = Some True, a_href = Some ''/a/1#z'', a_box = Some (Some (150, 0))\<rparr>,
      \<lparr>a_visible = Some True, a_href = Some ''/post/early'', a_box = Some (Some (1, 2 / 5))\<rparr>,
      \<lparr>a_visible = Some True, a_href = Some ''/upload?x'', a_box = Some (Some (10, 0))\<rparr>,
      \<lparr>a_visible = Some False, a_href = Some ''/a/hidden'', a_box = Some (Some (20, 0))\<rparr>,
      \<lparr>a_visible = Some True, a_href = Some ''/a/detached'', a_box = Some None\<rparr>]"

section \<open>Properties of the classifier\<close>

lemma split_char_nonempty: "split_char c s \<noteq> []"
  by (induction s) (auto split: list.splits)

text \<open>
  C1 (as stated, refuted): the href \<open>/a/image/x\<close> starts with the album prefix \<open>/a/\<close> and
  contains \<open>/image/\<close>; the specification's classifier answers Album, the program takes its
  image branch, because \<open>if is_image\<close> is tested before \<open>elif is_album\<close>.
\<close>

theorem C1_counterexample:
  "startswith ''/a/image/x'' ''/a/'' \<and> py_in ''/image/'' ''/a/image/x'' \<and>
   spec_classify ''/a/image/x'' = Album \<and> classify ''/a/image/x'' = Image"
  by (simp add: spec_classify_def classify_def is_image_def is_album_def startswith_def)

text \<open>
  C1 (amended): classification is a pure function of the href in which the \<open>/image/\<close>
  substring check comes first: an href containing \<open>/image/\<close> is Image; otherwise an href
  starting with \<open>/a/\<close> or \<open>/gallery/\<close> is Album; otherwise an href that starts with \<open>/\<close> and
  whose final path segment has exactly 7 characters is Image; otherwise it is Other.
\<close>

theorem C1_classify_order:
  "classify href =
     (if py_in ''/image/'' href then Image
      else if startswith href ''/a/'' \<or> startswith href ''/gallery/'' then Album
      else if startswith href ''/'' \<and> length (last (split_char CHR ''/'' href)) = 7 then Image
      else Other)"
  by (simp add: classify_def is_image_def is_album_def)

theorem C1_classify_order_witness:
  "classify ''/a/image/x'' = Image \<and> classify ''/gallery/abcDE'' = Album \<and>
   classify ''/AbCdEfG'' = Image \<and> classify ''/post/abc'' = Other"
  using C1_classify_order [of "''/a/image/x''"] C1_classify_order [of "''/gallery/abcDE''"]
    C1_classify_order [of "''/AbCdEfG''"] C1_classify_order [of "''/post/abc''"]
  by (simp add: startswith_def)

section \<open>Properties of the link extractor\<close>

lemma hd_split_char: "hd (split_char c s) = takeWhile (\<lambda>x. x \<noteq> c) s"
  by (induction s) (auto split: list.splits simp: split_char_nonempty)

lemma startswith_takeWhile:
  "startswith s p \<Longrightarrow> c \<notin> set p \<Longrightarrow> startswith (takeWhile (\<lambda>x. x \<noteq> c) s) p"
  unfolding startswith_def
proof (induction p arbitrary: s)
  case Nil
  then show ?case by simp
next
  case (Cons a p)
  then show ?case by (cases s) auto
qed

lemma normalize_keeps_prefix:
  "startswith s p \<Longrightarrow> CHR ''#'' \<notin> set p \<Longrightarrow> CHR ''?'' \<notin> set p \<Longrightarrow>
   startswith (normalize_href (Some s)) p"
  by (simp add: normalize_href_def hd_split_char startswith_takeWhile)

lemma normalize_no_query:
  "CHR ''?'' \<notin> set (normalize_href h) \<and> CHR ''#'' \<notin> set (normalize_href h)"
proof -
  have a: "\<And>c s. c \<notin> set (takeWhile (\<lambda>x. x \<noteq> c) s)"
    by (auto dest: set_takeWhileD)
  have b: "\<And>c d s. c \<notin> set s \<Longrightarrow> c \<notin> set (takeWhile (\<lambda>x. x \<noteq> d) s)"
    by (auto dest: set_takeWhileD)
  show ?thesis
    by (simp add: normalize_href_def hd_split_char a b)
qed

lemma bad_prefix_normalized:
  assumes "startswith_any s BAD_PREFIXES"
  shows "startswith_any (normalize_href (Some s)) BAD_PREFIXES"
proof -
  from assms obtain p where p: "p \<in> set BAD_PREFIXES" "startswith s p"
    by (auto simp: startswith_any_def list_ex_iff)
  from p(1) have "CHR ''#'' \<notin> set p \<and> CHR ''?'' \<notin> set p"
    by (auto simp: BAD_PREFIXES_def)
  with p(2) have "startswith (normalize_href (Some s)) p"
    by (simp add: normalize_keeps_prefix)
  with p(1) show ?thesis
    by (auto simp: startswith_any_def list_ex_iff)
qed

lemma dedupe_set: "set (dedupe S xs) \<subseteq> set xs"
  by (induction xs arbitrary: S) auto

lemma dedupe_unseen: "t \<in> set (dedupe S xs) \<Longrightarrow> link_href t \<notin> S"
  by (induction xs arbitrary: S) (auto split: if_splits)

lemma dedupe_distinct: "distinct (map link_href (dedupe S xs))"
  by (induction xs arbitrary: S) (auto dest: dedupe_unseen)

lemma dedupe_sorted: "sorted (map f xs) \<Longrightarrow> sorted (map f (dedupe S xs))"
proof (induction xs arbitrary: S)
  case Nil
  then show ?case by simp
next
  case (Cons x xs)
  then show ?case using dedupe_set [of "insert (link_href x) S" xs] by auto
qed

lemma dedupe_first:
  "t \<in> set (dedupe S xs) \<Longrightarrow> find (\<lambda>u. link_href u = link_href t) xs = Some t"
proof (induction xs arbitrary: S)
  case Nil
  then show ?case by simp
next
  case (Cons x xs)
  show ?case
  proof (cases "link_href x \<in> S")
    case True
    with Cons.prems have t: "t \<in> set (dedupe S xs)" by simp
    then have "link_href t \<notin> S" by (rule dedupe_unseen)
    with True have "link_href x \<noteq> link_href t" by auto
    with Cons.IH [OF t] show ?thesis by simp
  next
    case False
    with Cons.prems have "t = x \<or> t \<in> set (dedupe (insert (link_href x) S) xs)" by simp
    then show ?thesis
    proof
      assume "t = x" then show ?thesis by simp
    next
      assume t: "t \<in> set (dedupe (insert (link_href x) S) xs)"
      then have "link_href t \<notin> insert (link_href x) S" by (rule dedupe_unseen)
      then have "link_href x \<noteq> link_href t" by auto
      with Cons.IH [OF t] show ?thesis by simp
    qed
  qed
qed

lemma dedupe_complete:
  "t \<in> set xs \<Longrightarrow> link_href t \<notin> S \<Longrightarrow> link_href t \<in> link_href ` set (dedupe S xs)"
  by (induction xs arbitrary: S) auto

lemma candidate_Some:
  "candidate a = Some t \<Longrightarrow>
     a_visible a = Some True \<and> link_href t = normalize_href (a_href a) \<and>
     startswith (link_href t) ''/'' \<and> \<not> startswith_any (link_href t) BAD_PREFIXES \<and>
     POST_HREF_PAT (link_href t) \<and> a_box a = Some (Some (snd t))"
  by (auto simp: candidate_def Let_def link_href_def split: if_splits option.splits)

lemma in_set_map_filter:
  "y \<in> set (List.map_filter f xs) \<longleftrightarrow> (\<exists>x \<in> set xs. f x = Some y)"
  by (induction xs) (auto split: option.splits)

lemma links_sorted_from_candidate:
  assumes "t \<in> set (links_sorted anchors)"
  shows "\<exists>a \<in> set anchors. candidate a = Some t"
proof -
  from assms dedupe_set have "t \<in> set (sort_key sort_key_of (List.map_filter candidate anchors))"
    unfolding links_sorted_def by blast
  then show ?thesis by (simp add: in_set_map_filter)
qed

lemma py_round_nearest:
  "\<bar>v - of_int (py_round v)\<bar> \<le> 1 / 2 \<and>
   (\<bar>v - of_int (py_round v)\<bar> = 1 / 2 \<longrightarrow> even (py_round v))"
proof -
  define f where "f = \<lfloor>v\<rfloor>"
  define d where "d = v - of_int f"
  have d: "0 \<le> d" "d < 1" unfolding d_def f_def by linarith+
  have v: "v = of_int f + d" by (simp add: d_def)
  consider "d < 1 / 2" | "1 / 2 < d" | "d = 1 / 2" "even f" | "d = 1 / 2" "odd f"
    by fastforce
  then show ?thesis
  proof cases
    case 1
    then have "py_round v = f" by (simp add: py_round_def Let_def f_def d_def)
    with 1 d v show ?thesis by simp
  next
    case 2
    then have "py_round v = f + 1" by (simp add: py_round_def Let_def f_def d_def)
    with 2 d v show ?thesis by simp
  next
    case 3
    then have "py_round v = f" by (simp add: py_round_def Let_def f_def d_def)
    with 3 d v show ?thesis by simp
  next
    case 4
    then have "py_round v = f + 1" by (simp add: py_round_def Let_def f_def d_def)
    with 4 d v show ?thesis by simp
  qed
qed

lemma sort_key_of_eq: "sort_key_of = (\<lambda>(href, x, y). (py_round y, py_round x))"
  by (auto simp: sort_key_of_def fun_eq_iff)

lemma link_href_eq: "link_href = fst"
  by (simp add: link_href_def fun_eq_iff)

lemma normalize_href_eq:
  "normalize_href h =
     takeWhile (\<lambda>c. c \<noteq> CHR ''?'')
       (takeWhile (\<lambda>c. c \<noteq> CHR ''#'') (case h of None \<Rightarrow> [] | Some s \<Rightarrow> s))"
  by (simp add: normalize_href_def hd_split_char)

lemma bad_prefixes_eq:
  "startswith_any s BAD_PREFIXES \<longleftrightarrow>
     (\<exists>p \<in> set [''/upload'', ''/notifications'', ''/settings'', ''/account/'',
                  ''/user/'', ''/t/'', ''/topics'', ''/privacy'', ''/terms'', ''/arcade''].
        take (length p) s = p)"
  unfolding startswith_any_def BAD_PREFIXES_def list_ex_iff startswith_def ..

lemma links_sorted_properties:
  "sorted (map sort_key_of (links_sorted anchors)) \<and>
   distinct (map link_href (links_sorted anchors)) \<and>
   (\<forall>t \<in> set (links_sorted anchors).
      find (\<lambda>u. link_href u = link_href t)
        (sort_key sort_key_of (List.map_filter candidate anchors)) = Some t \<and>
      CHR ''?'' \<notin> set (link_href t) \<and> CHR ''#'' \<notin> set (link_href t) \<and>
      \<not> startswith_any (link_href t) BAD_PREFIXES \<and>
      (\<exists>a \<in> set anchors. a_visible a = Some True \<and> a_box a = Some (Some (snd t)) \<and>
         link_href t = normalize_href (a_href a))) \<and>
   (\<forall>a \<in> set anchors. \<forall>t. candidate a = Some t \<longrightarrow>
      link_href t \<in> link_href ` set (links_sorted anchors)) \<and>
   (\<forall>a \<in> set anchors. \<forall>s. a_href a = Some s \<and> startswith_any s BAD_PREFIXES \<longrightarrow>
      candidate a = None)"
proof (intro conjI ballI allI impI)
  show "sorted (map sort_key_of (links_sorted anchors))"
    unfolding links_sorted_def by (rule dedupe_sorted) simp
  show "distinct (map link_href (links_sorted anchors))"
    unfolding links_sorted_def by (rule dedupe_distinct)
next
  fix t assume t: "t \<in> set (links_sorted anchors)"
  then show "find (\<lambda>u. link_href u = link_href t)
               (sort_key sort_key_of (List.map_filter candidate anchors)) = Some t"
    unfolding links_sorted_def by (rule dedupe_first)
  from t obtain a where a: "a \<in> set anchors" "candidate a = Some t"
    using links_sorted_from_candidate by blast
  from candidate_Some [OF a(2)] normalize_no_query [of "a_href a"]
  show "CHR ''?'' \<notin> set (link_href t)" and "CHR ''#'' \<notin> set (link_href t)"
    by simp_all
  from candidate_Some [OF a(2)] show "\<not> startswith_any (link_href t) BAD_PREFIXES"
    by blast
  from candidate_Some [OF a(2)] a(1)
  show "\<exists>a \<in> set anchors. a_visible a = Some True \<and> a_box a = Some (Some (snd t)) \<and>
         link_href t = normalize_href (a_href a)"
    by blast
next
  fix a t assume "a \<in> set anchors" and "candidate a = Some t"
  then have "t \<in> set (sort_key sort_key_of (List.map_filter candidate anchors))"
    by (auto simp: in_set_map_filter)
  then show "link_href t \<in> link_href ` set (links_sorted anchors)"
    unfolding links_sorted_def by (rule dedupe_complete) simp
next
  fix a s assume "a \<in> set anchors" and "a_href a = Some s \<and> startswith_any s BAD_PREFIXES"
  then have "startswith_any (normalize_href (a_href a)) BAD_PREFIXES"
    using bad_prefix_normalized by simp
  then show "candidate a = None"
    by (simp add: candidate_def Let_def)
qed

text \<open>
  C5: for every list of anchors the output is sorted, non-decreasing, by the pair
  \<open>(round(y), round(x))\<close> in lexicographic order, where \<open>round\<close> gives the nearest integer
  and, at a tie, the even one; its hrefs are pairwise different and normalized (the href
  attribute cut at the first \<open>#\<close>, then at the first \<open>?\<close>) and belong to visible anchors with a
  bounding box; each output element is the first one with its href in the sorted list of
  accepted anchors, and every accepted href is represented; no output href starts with a
  disallowed prefix, and an anchor whose raw href starts with one is rejected.
\<close>

theorem C5_links_sorted:
  "sorted (map (\<lambda>(href, x, y). (py_round y, py_round x)) (links_sorted anchors)) \<and>
   \<bar>v - of_int (py_round v)\<bar> \<le> 1 / 2 \<and>
   (\<bar>v - of_int (py_round v)\<bar> = 1 / 2 \<longrightarrow> even (py_round v)) \<and>
   distinct (map fst (links_sorted anchors)) \<and>
   (\<forall>t \<in> set (links_sorted anchors).
      find (\<lambda>u. fst u = fst t)
        (sort_key (\<lambda>(href, x, y). (py_round y, py_round x))
           (List.map_filter candidate anchors)) = Some t \<and>
      CHR ''?'' \<notin> set (fst t) \<and> CHR ''#'' \<notin> set (fst t) \<and>
      \<not> (\<exists>p \<in> set [''/upload'', ''/notifications'', ''/settings'', ''/account/'',
                    ''/user/'', ''/t/'', ''/topics'', ''/privacy'', ''/terms'', ''/arcade''].
           take (length p) (fst t) = p) \<and>
      (\<exists>a \<in> set anchors. a_visible a = Some True \<and> a_box a = Some (Some (snd t)) \<and>
         fst t = takeWhile (\<lambda>c. c \<noteq> CHR ''?'')
                   (takeWhile (\<lambda>c. c \<noteq> CHR ''#'')
                      (case a_href a of None \<Rightarrow> [] | Some s \<Rightarrow> s)))) \<and>
   (\<forall>a \<in> set anchors. \<forall>t. candidate a = Some t \<longrightarrow>
      fst t \<in> fst ` set (links_sorted anchors)) \<and>
   (\<forall>a \<in> set anchors. \<forall>s.
      a_href a = Some s \<and>
      (\<exists>p \<in> set [''/upload'', ''/notifications'', ''/settings'', ''/account/'',
                    ''/user/'', ''/t/'', ''/topics'', ''/privacy'', ''/terms'', ''/arcade''].
         take (length p) s = p) \<longrightarrow>
      candidate a = None)"
  using links_sorted_properties [of anchors] py_round_nearest [of v]
  unfolding sort_key_of_eq link_href_eq normalize_href_eq bad_prefixes_eq
  by blast

lemma example_links:
  "links_sorted example_anchors =
     [(''/post/early'', 1, 2 / 5), (''/a/1'', 3 / 2, 1 / 2), (''/gallery/2'', 150, 0),
      (''/IMAGE01'', 0, 150)]"
  by code_simp

lemma example_rounds:
  "py_round (1 / 2) = 0" "py_round (3 / 2) = 2" "py_round (2 / 5) = 0" "py_round (5 / 2) = 2"
  "py_round (- 5 / 2) = - 2" "py_round (13 / 5) = 3"
  by code_simp+

theorem C5_links_sorted_witness:
  "links_sorted example_anchors =
     [(''/post/early'', 1, 2 / 5), (''/a/1'', 3 / 2, 1 / 2), (''/gallery/2'', 150, 0),
      (''/IMAGE01'', 0, 150)] \<and>
   map (\<lambda>(href, x, y). (py_round y, py_round x)) (links_sorted example_anchors) =
     [(0, 1), (0, 2), (0, 150), (150, 0)] \<and>
   sorted [(0 :: int, 1 :: int), (0, 2), (0, 150), (150, 0)] \<and>
   py_round (5 / 2) = 2 \<and> \<bar>5 / 2 - of_int (py_round (5 / 2))\<bar> = (1 / 2 :: rat) \<and>
   even (py_round (5 / 2)) \<and>
   distinct (map fst (links_sorted example_anchors)) \<and>
   find (\<lambda>u. fst u = ''/a/1'')
     (sort_key (\<lambda>(href, x, y). (py_round y, py_round x))
        (List.map_filter candidate example_anchors)) = Some (''/a/1'', 3 / 2, 1 / 2) \<and>
   candidate \<lparr>a_visible = Some True, a_href = Some ''/upload?x'', a_box = Some (Some (10, 0))\<rparr> =
     None"
proof -
  note c5 = C5_links_sorted [of example_anchors "5 / 2"]
  have k: "map (\<lambda>(href, x, y). (py_round y, py_round x)) (links_sorted example_anchors) =
     [(0, 1), (0, 2), (0, 150), (150, 0)]"
    by (simp add: example_links example_rounds) code_simp
  have r: "py_round (5 / 2) = 2" by (rule example_rounds)
  then have tie: "\<bar>5 / 2 - of_int (py_round (5 / 2))\<bar> = (1 / 2 :: rat)" by simp
  from c5 tie have ev: "even (py_round (5 / 2))" by blast
  from c5 k have so: "sorted [(0 :: int, 1 :: int), (0, 2), (0, 150), (150, 0)]" by simp
  have m: "(''/a/1'', 3 / 2, 1 / 2) \<in> set (links_sorted example_anchors)"
    by (simp add: example_links)
  have u: "\<lparr>a_visible = Some True, a_href = Some ''/upload?x'', a_box = Some (Some (10, 0))\<rparr>
      \<in> set example_anchors"
    by (simp add: example_anchors_def)
  have b: "\<exists>p \<in> set [''/upload'', ''/notifications'', ''/settings'', ''/account/'',
                    ''/user/'', ''/t/'', ''/topics'', ''/privacy'', ''/terms'', ''/arcade''].
      take (length p) ''/upload?x'' = p"
    by simp
  from c5 have d: "distinct (map fst (links_sorted example_anchors))" by blast
  from c5 m have 1: "find (\<lambda>u. fst u = fst (''/a/1'', 3 / 2 :: rat, 1 / 2 :: rat))
     (sort_key (\<lambda>(href, x, y). (py_round y, py_round x))
        (List.map_filter candidate example_anchors)) = Some (''/a/1'', 3 / 2, 1 / 2)"
    by blast
  from c5 u b have 3:
    "candidate \<lparr>a_visible = Some True, a_href = Some ''/upload?x'', a_box = Some (Some (10, 0))\<rparr> =
     None"
    by (metis anchor.select_convs(2))
  from example_links k so r tie ev d 1 3 show ?thesis by simp
qed

section \<open>Outcomes of the drivers\<close>

lemma final_result_cases: "final_result c d = (True, 1) \<or> final_result c d = (False, 0)"
  by (simp add: final_result_def)

lemma delete_image_outcome:
  "fst (delete_image E dry_run pg) = (True, 1) \<or> fst (delete_image E dry_run pg) = (False, 0)"
  by (auto simp: delete_image_def dismiss_dialog_def confirm_image_deletion_def Let_def
      split: prod.splits option.splits bool.splits)

lemma delete_album_outcome:
  "fst (delete_album E dry_run pg) = (fst (delete_post_container E dry_run (sleep E 1200 pg)), 0)"
  by (auto simp: delete_album_def Let_def split: prod.splits)

lemma final_verification_outcome:
  "fst (final_verification E url c d pg) = (True, 1) \<or>
   fst (final_verification E url c d pg) = (False, 0)"
  using final_result_cases [of c d]
  by (auto simp: final_verification_def Let_def split: prod.splits option.splits goto_result.splits)

lemma verify_outcome:
  "fst (verify E url c d pg) = (True, 1) \<or> fst (verify E url c d pg) = (False, 0)"
proof (cases c)
  case True
  then show ?thesis using final_verification_outcome [of E url c d pg] by (simp add: verify_def)
next
  case False
  obtain b pg1 where cu: "check_unconfirmed E url pg = (b, pg1)"
    by (cases "check_unconfirmed E url pg")
  show ?thesis using final_verification_outcome [of E url c d pg1] False cu
    by (cases b) (simp_all add: verify_def)
qed

lemma confirm_and_verify_outcome:
  "fst (confirm_and_verify E url dry_run d pg) = (True, 1) \<or>
   fst (confirm_and_verify E url dry_run d pg) = (False, 0)"
proof (cases d)
  case False
  then show ?thesis by (simp add: confirm_and_verify_def)
next
  case True
  obtain c pg1 where cd: "confirm_deletion E dry_run pg = (c, pg1)"
    by (cases "confirm_deletion E dry_run pg")
  show ?thesis using verify_outcome [of E url c d pg1] True cd
    by (simp add: confirm_and_verify_def)
qed

lemma delete_other_outcome:
  "fst (delete_other E url dry_run pg) = (True, 1) \<or>
   fst (delete_other E url dry_run pg) = (False, 0)"
proof -
  have "\<exists>d pg1. fst (delete_other E url dry_run pg) = (False, 0) \<or>
      delete_other E url dry_run pg = confirm_and_verify E url dry_run d pg1"
    by (auto simp: delete_other_def Let_def split: prod.splits bool.splits)
  then show ?thesis using confirm_and_verify_outcome [of E url dry_run] by metis
qed

lemma delete_one_Inr:
  assumes "delete_one E href dry_run pg = Inr x"
  shows "\<exists>pg2. x = (if is_image href then delete_image E dry_run pg2
       else if is_album href then delete_album E dry_run pg2
       else delete_other E (''https://imgur.com'' @ href) dry_run pg2)"
  using assms unfolding delete_one_def Let_def
  by (auto split: sum.splits if_splits)

lemma delete_one_outcome:
  assumes "delete_one E href dry_run pg = Inr (r, pg')"
  shows "r = (True, 1) \<or> r = (True, 0) \<or> r = (False, 0)"
proof -
  from delete_one_Inr [OF assms] obtain pg2 where
    r: "(r, pg') = (if is_image href then delete_image E dry_run pg2
       else if is_album href then delete_album E dry_run pg2
       else delete_other E (''https://imgur.com'' @ href) dry_run pg2)" by blast
  show ?thesis
  proof (cases "is_image href")
    case True
    with r have "r = fst (delete_image E dry_run pg2)" by (metis fst_conv)
    then show ?thesis using delete_image_outcome [of E dry_run pg2] by auto
  next
    case False
    show ?thesis
    proof (cases "is_album href")
      case True
      with r \<open>\<not> is_image href\<close> have "r = fst (delete_album E dry_run pg2)" by (metis fst_conv)
      then show ?thesis using delete_album_outcome [of E dry_run pg2]
        by (cases "fst (delete_post_container E dry_run (sleep E 1200 pg2))") auto
    next
      case F2: False
      with r False have "r = fst (delete_other E (''https://imgur.com'' @ href) dry_run pg2)"
        by (metis fst_conv)
      then show ?thesis using delete_other_outcome [of E _ dry_run pg2] by auto
    qed
  qed
qed

section \<open>The counter of the loop\<close>

lemma process_links_simps [simp]:
  "process_links E username dry_run max_to_process [] st = Inr st"
  "process_links E username dry_run max_to_process (l # ls) st =
     (case delete_one E (link_href l) dry_run (rs_page st) of
        Inl pg1 \<Rightarrow> Inl (st\<lparr>rs_page := pg1\<rparr>)
      | Inr (r, pg1) \<Rightarrow>
          (let st1 = st\<lparr>processed := count_outcome r (processed st),
                        journal := journal st @ [(link_href l, r)]\<rparr>;
               pg2 = sleep E 300 pg1
           in case go_to_posts_all E username pg2 of
                Inl pg3 \<Rightarrow> Inl (st1\<lparr>rs_page := pg3\<rparr>)
              | Inr pg3 \<Rightarrow>
                  (case scroll_to_top E pg3 of
                     Inl pg4 \<Rightarrow> Inl (st1\<lparr>rs_page := pg4\<rparr>)
                   | Inr pg4 \<Rightarrow>
                       if max_to_process \<le> processed st1 then Inr (st1\<lparr>rs_page := pg4\<rparr>)
                       else process_links E username dry_run max_to_process ls
                              (st1\<lparr>rs_page := pg4\<rparr>))))"
  unfolding process_links_def by (rule process_links_with.simps)+

lemma count_outcome_one:
  "r = (True, 1) \<or> r = (True, 0) \<or> r = (False, 0) \<Longrightarrow> count_outcome r n = n + 1"
  by (auto simp: count_outcome_def)

lemma process_links_step:
  assumes "delete_one E (link_href l) dry_run (rs_page st) = Inr (r, pg1)"
  shows "\<exists>pg. process_links E u dry_run cap (l # ls) st =
           Inl (st\<lparr>processed := processed st + 1, journal := journal st @ [(link_href l, r)], rs_page := pg\<rparr>) \<or>
         process_links E u dry_run cap (l # ls) st =
           (if cap \<le> processed st + 1
            then Inr (st\<lparr>processed := processed st + 1, journal := journal st @ [(link_href l, r)], rs_page := pg\<rparr>)
            else process_links E u dry_run cap ls
              (st\<lparr>processed := processed st + 1, journal := journal st @ [(link_href l, r)], rs_page := pg\<rparr>))"
  using assms count_outcome_one [OF delete_one_outcome [OF assms], of "processed st"]
  by (auto simp: Let_def split: sum.splits)

lemma process_links_raise:
  assumes "delete_one E (link_href l) dry_run (rs_page st) = Inl pg1"
  shows "process_links E u dry_run cap (l # ls) st = Inl (st\<lparr>rs_page := pg1\<rparr>)"
  using assms by simp

lemma process_links_processed:
  "processed st \<le> processed (after_links (process_links E u dry_run cap ls st)) \<and>
   (processed st < cap \<longrightarrow> processed (after_links (process_links E u dry_run cap ls st)) \<le> cap) \<and>
   length (journal (after_links (process_links E u dry_run cap ls st))) =
     length (journal st) + nat (processed (after_links (process_links E u dry_run cap ls st)) - processed st)"
proof (induction ls arbitrary: st)
  case Nil
  then show ?case by (simp add: after_links_def)
next
  case (Cons l ls)
  show ?case
  proof (cases "delete_one E (link_href l) dry_run (rs_page st)")
    case (Inl pg1)
    then show ?thesis by (simp add: after_links_def)
  next
    case (Inr x)
    obtain r pg1 where x: "x = (r, pg1)" by (cases x)
    from process_links_step [OF Inr [unfolded x], of u cap ls]
    obtain pg where pg: "process_links E u dry_run cap (l # ls) st =
           Inl (st\<lparr>processed := processed st + 1, journal := journal st @ [(link_href l, r)], rs_page := pg\<rparr>) \<or>
         process_links E u dry_run cap (l # ls) st =
           (if cap \<le> processed st + 1
            then Inr (st\<lparr>processed := processed st + 1, journal := journal st @ [(link_href l, r)], rs_page := pg\<rparr>)
            else process_links E u dry_run cap ls
              (st\<lparr>processed := processed st + 1, journal := journal st @ [(link_href l, r)], rs_page := pg\<rparr>))"
      by blast
    let ?st1 = "st\<lparr>processed := processed st + 1, journal := journal st @ [(link_href l, r)], rs_page := pg\<rparr>"
    from pg show ?thesis
    proof
      assume "process_links E u dry_run cap (l # ls) st = Inl ?st1"
      then show ?thesis by (simp add: after_links_def)
    next
      assume a: "process_links E u dry_run cap (l # ls) st =
        (if cap \<le> processed st + 1 then Inr ?st1 else process_links E u dry_run cap ls ?st1)"
      show ?thesis
      proof (cases "cap \<le> processed st + 1")
        case True
        with a show ?thesis by (simp add: after_links_def)
      next
        case False
        with a have b: "process_links E u dry_run cap (l # ls) st = process_links E u dry_run cap ls ?st1"
          by simp
        from Cons.IH [of ?st1] False show ?thesis unfolding b by auto
      qed
    qed
  qed
qed

lemma load_more_processed: "processed (after_step (load_more E p ex st)) = processed st"
  by (auto simp: load_more_def split: option.splits prod.splits bool.splits)

lemma load_more_journal: "journal (after_step (load_more E p ex st)) = journal st"
  by (auto simp: load_more_def split: option.splits prod.splits bool.splits)

lemma loop_body_processed:
  "processed st \<le> processed (after_step (loop_body E u dry_run cap st)) \<and>
   (processed st < cap \<longrightarrow> processed (after_step (loop_body E u dry_run cap st)) \<le> cap)"
proof (cases "find_post_links_sorted E (rs_page st)")
  case None
  then show ?thesis by (simp add: loop_body_def)
next
  case (Some links)
  show ?thesis
  proof (cases "links = []")
    case True
    with Some show ?thesis by (simp add: loop_body_def load_more_processed)
  next
    case False
    have "after_step (loop_body E u dry_run cap st) = after_links (process_links E u dry_run cap links st)
      \<or> processed (after_step (loop_body E u dry_run cap st)) = processed (after_links (process_links E u dry_run cap links st))"
      using Some False by (auto simp: loop_body_def after_links_def load_more_processed split: sum.splits)
    then show ?thesis using process_links_processed [of st E u dry_run cap links] by auto
  qed
qed

lemma main_loop_processed:
  "main_loop k E u dry_run cap st = Some (ex, st') \<Longrightarrow>
     processed st \<le> processed st' \<and> (processed st \<le> cap \<longrightarrow> processed st' \<le> cap) \<and>
     (ex = CapReached \<longrightarrow> cap \<le> processed st')"
proof (induction k arbitrary: st)
  case 0
  then show ?case by simp
next
  case (Suc k)
  show ?case
  proof (cases "processed st < cap")
    case False
    with Suc.prems show ?thesis by auto
  next
    case True
    note lb = loop_body_processed [of st E u dry_run cap]
    show ?thesis
    proof (cases "loop_body E u dry_run cap st")
      case (Continue st1)
      with Suc.prems True have "main_loop k E u dry_run cap st1 = Some (ex, st')" by simp
      from Suc.IH [OF this] lb True Continue show ?thesis by auto
    next
      case (Break e1 st1)
      with Suc.prems True have "ex = e1" "st' = st1" by simp_all
      moreover have "e1 \<noteq> CapReached"
        using Break by (auto simp: loop_body_def load_more_def split: option.splits if_splits prod.splits bool.splits sum.splits)
      ultimately show ?thesis using lb True Break by auto
    qed
  qed
qed

section \<open>Running the program on the simulated site\<close>

lemma site_sleep [simp]: "sleep (site_engine S) ms pg = pg"
  by (simp add: sleep_def site_engine_def)

lemma site_is_visible [simp]:
  "is_visible (site_engine S) loc t pg = (Some (s_visible S (fst (world pg)) loc), pg)"
  by (simp add: is_visible_def site_engine_def)

lemma site_click [simp]:
  "click (site_engine S) loc t pg = (True, pg\<lparr>actions := actions pg @ [Click loc]\<rparr>)"
  by (simp add: click_def site_engine_def)

lemma site_goto [simp]:
  "goto (site_engine S) url wait t pg =
     (s_loads S (snd (world pg)) url,
      \<lparr>world = (if s_loads S (snd (world pg)) url = Loaded then url else fst (world pg),
                Suc (snd (world pg))),
       actions = actions pg @ [Goto url]\<rparr>)"
  by (simp add: goto_def site_engine_def)

lemma site_scroll_to [simp]:
  "scroll_to (site_engine S) target pg = (True, pg\<lparr>actions := actions pg @ [ScrollTo target]\<rparr>)"
  by (simp add: scroll_to_def site_engine_def)

lemma site_wait [simp]: "wait_for_load_state (site_engine S) t pg = (True, pg)"
  by (simp add: wait_for_load_state_def site_engine_def)

lemma site_reads [simp]:
  "e_url (site_engine S) w = fst w"
  "e_content (site_engine S) w = s_content S (fst w)"
  "e_scroll_height (site_engine S) w = Some (s_height S (fst w))"
  "e_anchors (site_engine S) w = Some (s_anchors S (fst w))"
  "e_all_count (site_engine S) sel w = Some 0"
  "e_get_attribute (site_engine S) loc name w = Some None"
  by (simp_all add: site_engine_def)

lemma site_safe_click:
  "safe_click (site_engine S) loc dry_run t pg =
     (if s_visible S (fst (world pg)) loc
      then (True, if dry_run then pg else pg\<lparr>actions := actions pg @ [Click loc]\<rparr>)
      else (False, pg))"
  by (simp add: safe_click_def split: bool.splits)

lemma site_safe_click_first:
  "safe_click_first (site_engine S) dry_run t p ls pg =
     (case find (s_visible S (fst (world pg))) ls of
        None \<Rightarrow> (False, pg)
      | Some l \<Rightarrow> (True, if dry_run then pg else pg\<lparr>actions := actions pg @ [Click l]\<rparr>))"
  by (induction ls) (auto simp: site_safe_click split: bool.splits)

lemma site_visible_click_first:
  "visible_click_first (site_engine S) vt ct p ls pg =
     (case find (s_visible S (fst (world pg))) ls of
        None \<Rightarrow> (False, pg)
      | Some l \<Rightarrow> (True, pg\<lparr>actions := actions pg @ [Click l]\<rparr>))"
  by (induction ls) (auto simp: visible_click_def split: bool.splits)

lemma site_safe_goto:
  "s_loads S (snd (world pg)) url = Loaded \<Longrightarrow>
   safe_goto (site_engine S) url t pg =
     Inr \<lparr>world = (url, Suc (snd (world pg))), actions = actions pg @ [Goto url]\<rparr>"
  by (simp add: safe_goto_def)

lemma find_append:
  "find P (xs @ ys) = (case find P xs of None \<Rightarrow> find P ys | Some x \<Rightarrow> Some x)"
  by (induction xs) auto

lemma site_click_delete_post:
  "click_delete_post (site_engine S) dry_run pg =
     (case find (s_visible S (fst (world pg))) (delete_post_selectors @ [delete_post_role]) of
        None \<Rightarrow> (False, pg)
      | Some l \<Rightarrow> (True, if dry_run then pg else pg\<lparr>actions := actions pg @ [Click l]\<rparr>))"
  by (simp add: click_delete_post_def site_safe_click_first find_append
      del: safe_click_first.simps split: option.splits bool.splits)

lemma site_delete_album_dry:
  "delete_album (site_engine S) True pg =
     ((find (s_visible S (fst (world pg))) (delete_post_selectors @ [delete_post_role]) \<noteq> None, 0),
      pg)"
  by (simp add: delete_album_def delete_post_container_def site_click_delete_post
      site_safe_click_first Let_def split: option.splits prod.splits)

lemma site_delete_image_dry:
  "delete_image (site_engine S) True pg =
     (if s_visible S (fst (world pg)) delete_image_button
      then ((True, 1),
            pg\<lparr>actions := actions pg @ Click delete_image_button #
               (case find (s_visible S (fst (world pg))) cancel_controls of
                  None \<Rightarrow> [] | Some l \<Rightarrow> [Click l])\<rparr>)
      else ((False, 0), pg))"
  by (auto simp: delete_image_def dismiss_dialog_def site_visible_click_first Let_def
      cancel_controls_def find_append simp del: visible_click_first.simps
      split: option.splits prod.splits)

lemma site_delete_one:
  assumes "s_loads S (snd (world pg)) (''https://imgur.com'' @ href) = Loaded"
  shows "delete_one (site_engine S) href dry_run pg =
     Inr (if is_image href then delete_image (site_engine S) dry_run
               \<lparr>world = (''https://imgur.com'' @ href, Suc (snd (world pg))),
                actions = actions pg @ [Goto (''https://imgur.com'' @ href)]\<rparr>
          else if is_album href then delete_album (site_engine S) dry_run
               \<lparr>world = (''https://imgur.com'' @ href, Suc (snd (world pg))),
                actions = actions pg @ [Goto (''https://imgur.com'' @ href)]\<rparr>
          else delete_other (site_engine S) (''https://imgur.com'' @ href) dry_run
               \<lparr>world = (''https://imgur.com'' @ href, Suc (snd (world pg))),
                actions = actions pg @ [Goto (''https://imgur.com'' @ href)]\<rparr>)"
  unfolding delete_one_def Let_def using assms
  by (simp add: site_safe_goto del: append.simps)

lemma site_go_to_posts_all:
  assumes "s_loads S (snd (world pg)) (get_posts_url u) = Loaded"
  shows "go_to_posts_all (site_engine S) u pg =
     Inr \<lparr>world = (get_posts_url u, Suc (snd (world pg))),
          actions = actions pg @ Goto (get_posts_url u) #
            (case find (s_visible S (get_posts_url u)) all_tab_selectors of
               None \<Rightarrow> [] | Some l \<Rightarrow> [Click l])\<rparr>"
  using assms
  by (simp add: go_to_posts_all_def site_safe_goto select_all_tab_def site_visible_click_first
      split: option.splits)

lemma site_scroll_to_top:
  "scroll_to_top (site_engine S) pg = Inr (pg\<lparr>actions := actions pg @ [ScrollTo Top]\<rparr>)"
  by (simp add: scroll_to_top_def)

lemma site_load_more:
  "load_more (site_engine S) p ex st =
     (let h = s_height S (fst (world (rs_page st)))
      in if h \<in> seen_heights st then Break ex st
         else Continue (st\<lparr>rs_page := (rs_page st)\<lparr>actions := actions (rs_page st) @ [ScrollTo Bottom]\<rparr>,
                           seen_heights := insert h (seen_heights st)\<rparr>))"
  by (simp add: load_more_def Let_def)

lemma grid_loads [simp]: "s_loads (grid_site as) n url = Loaded"
  by (simp add: grid_site_def)

lemma grid_height [simp]: "s_height (grid_site as) url = 1000"
  by (simp add: grid_site_def)

lemma grid_album_visible:
  "find (s_visible (grid_site as) ''https://imgur.com/a/1'') (delete_post_selectors @ [delete_post_role]) \<noteq> None"
  "find (s_visible (grid_site as) ''https://imgur.com/gallery/2'') (delete_post_selectors @ [delete_post_role]) \<noteq> None"
  by (simp_all add: grid_site_def delete_post_selectors_def)

lemma grid_image_visible:
  \<open>s_visible (grid_site as) ''https://imgur.com/IMAGE01'' delete_image_button\<close>
  \<open>find (s_visible (grid_site as) ''https://imgur.com/IMAGE01'') cancel_controls =
     Some (Css ''button:has-text("Cancel")'')\<close>
  by (simp_all add: grid_site_def cancel_controls_def cancel_selectors_def)

lemma grid_tab_hidden:
  "find (s_visible (grid_site as) (get_posts_url ''u'')) all_tab_selectors = None"
  by (simp add: grid_site_def all_tab_selectors_def get_posts_url_def)

lemma kinds:
  "\<not> is_image ''/a/1''" "is_album ''/a/1''" "\<not> is_image ''/gallery/2''" "is_album ''/gallery/2''"
  "is_image ''/IMAGE01''"
  by (simp_all add: is_image_def is_album_def startswith_def)

lemma grid_album_dry:
  "delete_one (site_engine (grid_site as)) ''/a/1'' True pg =
     Inr ((True, 0), \<lparr>world = (''https://imgur.com/a/1'', Suc (snd (world pg))),
                     actions = actions pg @ [Goto ''https://imgur.com/a/1'']\<rparr>)"
  using grid_album_visible(1) [of as]
  by (simp add: site_delete_one kinds site_delete_album_dry)

lemma grid_gallery_dry:
  "delete_one (site_engine (grid_site as)) ''/gallery/2'' True pg =
     Inr ((True, 0), \<lparr>world = (''https://imgur.com/gallery/2'', Suc (snd (world pg))),
                     actions = actions pg @ [Goto ''https://imgur.com/gallery/2'']\<rparr>)"
  using grid_album_visible(2) [of as]
  by (simp add: site_delete_one kinds site_delete_album_dry)

lemma grid_image_dry:
  \<open>delete_one (site_engine (grid_site as)) ''/IMAGE01'' True pg =
     Inr ((True, 1), \<lparr>world = (''https://imgur.com/IMAGE01'', Suc (snd (world pg))),
                     actions = actions pg @ [Goto ''https://imgur.com/IMAGE01'',
                       Click delete_image_button, Click (Css ''button:has-text("Cancel")'')]\<rparr>)\<close>
  using grid_image_visible [of as]
  by (simp add: site_delete_one kinds site_delete_image_dry)

lemma grid_go_to_posts:
  "go_to_posts_all (site_engine (grid_site as)) ''u'' pg =
     Inr \<lparr>world = (get_posts_url ''u'', Suc (snd (world pg))),
          actions = actions pg @ [Goto (get_posts_url ''u'')]\<rparr>"
  by (simp add: site_go_to_posts_all grid_tab_hidden)

lemma links_xy:
  "links_sorted anchors_xy = [(''/a/1'', 0, 0), (''/gallery/2'', 150, 0), (''/IMAGE01'', 0, 150)]"
  by code_simp

lemma grid_links_xy:
  "fst (world pg) = get_posts_url ''u'' \<Longrightarrow>
   find_post_links_sorted (site_engine (grid_site anchors_xy)) pg =
     Some [(''/a/1'', 0, 0), (''/gallery/2'', 150, 0), (''/IMAGE01'', 0, 150)]"
  by (simp add: find_post_links_sorted_def links_xy grid_site_def get_posts_url_def)

lemma grid_pass_xy:
  \<open>process_links (site_engine (grid_site as)) ''u'' True 3
      [(''/a/1'', 0, 0), (''/gallery/2'', 150, 0), (''/IMAGE01'', 0, 150)] grid_start =
    Inr \<lparr>rs_page = \<lparr>world = (get_posts_url ''u'', 7),
                     actions = [Goto (get_posts_url ''u''), ScrollTo Top,
                       Goto ''https://imgur.com/a/1'', Goto (get_posts_url ''u''), ScrollTo Top,
                       Goto ''https://imgur.com/gallery/2'', Goto (get_posts_url ''u''), ScrollTo Top,
                       Goto ''https://imgur.com/IMAGE01'', Click delete_image_button,
                       Click (Css ''button:has-text("Cancel")''),
                       Goto (get_posts_url ''u''), ScrollTo Top]\<rparr>,
         processed = 3, seen_heights = {},
         journal = [(''/a/1'', True, 0), (''/gallery/2'', True, 0), (''/IMAGE01'', True, 1)]\<rparr>\<close>
  by (simp add: grid_start_def link_href_def grid_album_dry grid_gallery_dry grid_image_dry
      grid_go_to_posts site_scroll_to_top count_outcome_def)


section \<open>The record of actions\<close>

lemma clicks_append: "clicks (xs @ ys) = clicks xs @ clicks ys"
  by (induction xs rule: clicks.induct) auto

lemma only_clicks_refl: "only_clicks A pg pg"
  by (simp add: only_clicks_def)

lemma only_clicks_trans:
  "only_clicks A pg pg1 \<Longrightarrow> only_clicks A pg1 pg2 \<Longrightarrow> only_clicks A pg pg2"
  by (auto simp: only_clicks_def clicks_append)

lemma only_clicks_mono: "only_clicks A pg pg' \<Longrightarrow> A \<subseteq> B \<Longrightarrow> only_clicks B pg pg'"
  by (auto simp: only_clicks_def)

lemma only_clicks_same: "actions pg' = actions pg \<Longrightarrow> only_clicks A pg pg'"
  by (simp add: only_clicks_def)

lemma sleep_actions [simp]: "actions (sleep E ms pg) = actions pg"
  by (simp add: sleep_def)

lemma is_visible_actions [simp]: "actions (snd (is_visible E loc t pg)) = actions pg"
  by (simp add: is_visible_def split: prod.splits)

lemma wait_actions [simp]: "actions (snd (wait_for_load_state E t pg)) = actions pg"
  by (simp add: wait_for_load_state_def split: prod.splits)

lemma click_actions [simp]: "actions (snd (click E loc t pg)) = actions pg @ [Click loc]"
  by (simp add: click_def split: prod.splits)

lemma goto_actions [simp]: "actions (snd (goto E url w t pg)) = actions pg @ [Goto url]"
  by (simp add: goto_def split: prod.splits)

lemma only_clicks_sleep: "only_clicks A pg (sleep E ms pg)"
  by (simp add: only_clicks_same)

lemma only_clicks_goto: "only_clicks A pg (snd (goto E url w t pg))"
  by (simp add: only_clicks_def)

lemma only_clicks_click: "loc \<in> A \<Longrightarrow> only_clicks A pg (snd (click E loc t pg))"
  by (simp add: only_clicks_def)

lemma safe_click_dry_actions [simp]: "actions (snd (safe_click E loc True t pg)) = actions pg"
proof -
  obtain r pg1 where v: "is_visible E loc (Some t) pg = (r, pg1)" by (cases "is_visible E loc (Some t) pg")
  then have "actions pg1 = actions pg" using is_visible_actions [of E loc "Some t" pg] by simp
  with v show ?thesis by (auto simp: safe_click_def split: option.splits bool.splits)
qed

lemma safe_click_first_dry_actions [simp]:
  "actions (snd (safe_click_first E True t p ls pg)) = actions pg"
proof (induction ls arbitrary: pg)
  case Nil
  then show ?case by simp
next
  case (Cons l ls)
  obtain b pg1 where s: "safe_click E l True t pg = (b, pg1)" by (cases "safe_click E l True t pg")
  then have a: "actions pg1 = actions pg" using safe_click_dry_actions [of E l t pg] by simp
  show ?case using s a Cons.IH [of pg1] by (cases b) simp_all
qed

lemma visible_click_only: "only_clicks {l} pg (snd (visible_click E l vt ct pg))"
proof -
  obtain r pg1 where v: "is_visible E l vt pg = (r, pg1)" by (cases "is_visible E l vt pg")
  then have a: "actions pg1 = actions pg" using is_visible_actions [of E l vt pg] by simp
  have "only_clicks {l} pg1 (snd (visible_click E l vt ct pg))"
    using v by (auto simp: visible_click_def only_clicks_refl only_clicks_click
        split: option.splits bool.splits)
  then show ?thesis using a by (simp add: only_clicks_def)
qed

lemma visible_click_first_only:
  "only_clicks (set ls) pg (snd (visible_click_first E vt ct p ls pg))"
proof (induction ls arbitrary: pg)
  case Nil
  then show ?case by (simp add: only_clicks_refl)
next
  case (Cons l ls)
  obtain b pg1 where s: "visible_click E l vt ct pg = (b, pg1)" by (cases "visible_click E l vt ct pg")
  have 1: "only_clicks (set (l # ls)) pg pg1"
    using visible_click_only [of l pg E vt ct] s by (auto intro: only_clicks_mono)
  show ?case
  proof (cases b)
    case True
    with s have "snd (visible_click_first E vt ct p (l # ls) pg) = sleep E p pg1" by simp
    then show ?thesis using 1 only_clicks_sleep [of "set (l # ls)" pg1 E p]
      by (auto intro: only_clicks_trans)
  next
    case False
    with s have "snd (visible_click_first E vt ct p (l # ls) pg) =
        snd (visible_click_first E vt ct p ls pg1)" by simp
    then show ?thesis using 1 Cons.IH [of pg1]
      by (auto intro: only_clicks_trans only_clicks_mono)
  qed
qed

lemma click_delete_post_dry_actions [simp]:
  "actions (snd (click_delete_post E True pg)) = actions pg"
proof -
  obtain b pg1 where s: "safe_click_first E True 2000 1000 delete_post_selectors pg = (b, pg1)"
    by (cases "safe_click_first E True 2000 1000 delete_post_selectors pg")
  then have a: "actions pg1 = actions pg"
    using safe_click_first_dry_actions [of E 2000 1000 delete_post_selectors pg] by simp
  show ?thesis using s a safe_click_first_dry_actions [of E 2000 1000 "[delete_post_role]" pg1]
    by (cases b) (simp_all add: click_delete_post_def del: safe_click_first.simps)
qed

lemma delete_post_container_dry_actions [simp]:
  "actions (snd (delete_post_container E True pg)) = actions pg"
proof -
  obtain b pg1 where s: "click_delete_post E True (sleep E 500 pg) = (b, pg1)"
    by (cases "click_delete_post E True (sleep E 500 pg)")
  then have a: "actions pg1 = actions pg"
    using click_delete_post_dry_actions [of E "sleep E 500 pg"] by simp
  obtain c pg2 where t: "safe_click_first E True 2000 1000 confirmation_selectors (sleep E 1500 pg1) = (c, pg2)"
    by (cases "safe_click_first E True 2000 1000 confirmation_selectors (sleep E 1500 pg1)")
  then have "actions pg2 = actions pg1"
    using safe_click_first_dry_actions [of E 2000 1000 confirmation_selectors "sleep E 1500 pg1"] by simp
  with s t a show ?thesis by (simp add: delete_post_container_def)
qed

lemma delete_album_dry_actions [simp]:
  "actions (snd (delete_album E True pg)) = actions pg"
proof -
  obtain b pg1 where s: "delete_post_container E True (sleep E 1200 pg) = (b, pg1)"
    by (cases "delete_post_container E True (sleep E 1200 pg)")
  then have "actions pg1 = actions pg"
    using delete_post_container_dry_actions [of E "sleep E 1200 pg"] by simp
  with s show ?thesis by (simp add: delete_album_def Let_def)
qed

lemma dismiss_dialog_only:
  "only_clicks (set cancel_controls) pg (snd (dismiss_dialog E pg))"
proof -
  let ?A = "set cancel_controls"
  let ?pg1 = "sleep E 600 pg"
  obtain b pg2 where s: "visible_click_first E (Some 2000) 2000 300 cancel_selectors ?pg1 = (b, pg2)"
    by (cases "visible_click_first E (Some 2000) 2000 300 cancel_selectors ?pg1")
  have 1: "only_clicks ?A pg pg2"
    using visible_click_first_only [of cancel_selectors ?pg1 E "Some 2000" 2000 300] s
      only_clicks_sleep [of ?A pg E 600]
    by (auto simp: cancel_controls_def intro: only_clicks_trans only_clicks_mono)
  obtain c pg3 where t: "visible_click_first E (Some 2000) 2000 300 [cancel_role] pg2 = (c, pg3)"
    by (cases "visible_click_first E (Some 2000) 2000 300 [cancel_role] pg2")
  have 2: "only_clicks ?A pg2 pg3"
    using visible_click_first_only [of "[cancel_role]" pg2 E "Some 2000" 2000 300] t
    by (auto simp: cancel_controls_def intro: only_clicks_mono)
  have 3: "only_clicks ?A pg pg3" using 1 2 by (rule only_clicks_trans)
  have "snd (dismiss_dialog E pg) = pg2 \<or> snd (dismiss_dialog E pg) = pg3 \<or>
        snd (dismiss_dialog E pg) = sleep E 300 pg2 \<or> snd (dismiss_dialog E pg) = sleep E 300 pg3"
    using s t by (auto simp: dismiss_dialog_def Let_def simp del: visible_click_first.simps)
  then show ?thesis
    using 1 3 only_clicks_sleep [of ?A pg2 E 300] only_clicks_sleep [of ?A pg3 E 300]
    by (auto intro: only_clicks_trans)
qed

lemma delete_image_dry_only:
  "only_clicks (insert delete_image_button (set cancel_controls)) pg (snd (delete_image E True pg))"
proof -
  let ?A = "insert delete_image_button (set cancel_controls)"
  obtain r pg1 where v: "is_visible E delete_image_button (Some 3000) pg = (r, pg1)"
    by (cases "is_visible E delete_image_button (Some 3000) pg")
  then have a: "actions pg1 = actions pg"
    using is_visible_actions [of E delete_image_button "Some 3000" pg] by simp
  then have 1: "only_clicks ?A pg pg1" by (rule only_clicks_same)
  obtain b pg2 where c: "click E delete_image_button 3000 pg1 = (b, pg2)"
    by (cases "click E delete_image_button 3000 pg1")
  have 2: "only_clicks ?A pg1 pg2"
    using only_clicks_click [of delete_image_button ?A pg1 E 3000] c by simp
  have 3: "only_clicks ?A pg2 (snd (dismiss_dialog E (sleep E 600 pg2)))"
    using dismiss_dialog_only [of "sleep E 600 pg2" E] only_clicks_sleep [of ?A pg2 E 600]
    by (auto intro: only_clicks_trans only_clicks_mono)
  have "snd (delete_image E True pg) = pg1 \<or> snd (delete_image E True pg) = pg2 \<or>
        snd (delete_image E True pg) = snd (dismiss_dialog E (sleep E 600 pg2))"
    using v c by (auto simp: delete_image_def split: option.splits bool.splits)
  then show ?thesis using 1 2 3 by (auto intro: only_clicks_trans)
qed

lemma scan_buttons_dry_actions [simp]:
  "actions (snd (scan_buttons E True is pg)) = actions pg"
proof (induction "is" arbitrary: pg)
  case Nil
  then show ?case by simp
next
  case (Cons i "is")
  obtain b pg1 where s: "safe_click E (NthOf ''button'' i) True 500 pg = (b, pg1)"
    by (cases "safe_click E (NthOf ''button'' i) True 500 pg")
  then have a: "actions pg1 = actions pg"
    using safe_click_dry_actions [of E "NthOf ''button'' i" 500 pg] by simp
  show ?case using s a Cons.IH [of pg] Cons.IH [of pg1]
    by (cases b) (auto simp: Let_def split: option.splits)
qed

lemma open_menu_dry_actions [simp]: "actions (snd (open_menu E True pg)) = actions pg"
proof -
  obtain b pg1 where s: "safe_click_first E True 1500 800 three_dots_selectors pg = (b, pg1)"
    by (cases "safe_click_first E True 1500 800 three_dots_selectors pg")
  then have a: "actions pg1 = actions pg"
    using safe_click_first_dry_actions [of E 1500 800 three_dots_selectors pg] by simp
  show ?thesis using s a scan_buttons_dry_actions [of E _ pg1]
    by (cases b) (auto simp: open_menu_def split: option.splits)
qed

lemma confirm_deletion_dry_actions [simp]:
  "actions (snd (confirm_deletion E True pg)) = actions pg"
proof -
  obtain b pg1 where s: "safe_click_first E True 2000 1000 confirm_selectors (sleep E 800 pg) = (b, pg1)"
    by (cases "safe_click_first E True 2000 1000 confirm_selectors (sleep E 800 pg)")
  then have a: "actions pg1 = actions pg"
    using safe_click_first_dry_actions [of E 2000 1000 confirm_selectors "sleep E 800 pg"] by simp
  show ?thesis using s a safe_click_first_dry_actions [of E 2000 1000 confirm_roles pg1]
    by (cases b) (simp_all add: confirm_deletion_def Let_def)
qed

lemma check_unconfirmed_actions [simp]:
  "actions (snd (check_unconfirmed E url pg)) = actions pg"
proof -
  obtain b pg2 where w: "wait_for_load_state E 3000 (sleep E 2000 pg) = (b, pg2)"
    by (cases "wait_for_load_state E 3000 (sleep E 2000 pg)")
  then have "actions pg2 = actions pg"
    using wait_actions [of E 3000 "sleep E 2000 pg"] by simp
  with w show ?thesis
    by (auto simp: check_unconfirmed_def Let_def split: option.splits bool.splits)
qed

lemma final_verification_clicks:
  "only_clicks {} pg (snd (final_verification E url c d pg))"
proof -
  obtain r pg2 where g: "goto E url True 5000 (sleep E 1500 pg) = (r, pg2)"
    by (cases "goto E url True 5000 (sleep E 1500 pg)")
  have 1: "only_clicks {} pg pg2"
    using only_clicks_goto [of "{}" "sleep E 1500 pg" E url True 5000] g
      only_clicks_sleep [of "{}" pg E 1500]
    by (auto intro: only_clicks_trans)
  have "snd (final_verification E url c d pg) = pg \<or> snd (final_verification E url c d pg) = pg2 \<or>
        snd (final_verification E url c d pg) = sleep E 500 pg2"
    using g by (auto simp: final_verification_def Let_def split: goto_result.splits option.splits)
  then show ?thesis using 1 only_clicks_sleep [of "{}" pg2 E 500] only_clicks_refl [of "{}" pg]
    by (auto intro: only_clicks_trans)
qed

lemma verify_clicks: "only_clicks {} pg (snd (verify E url c d pg))"
proof (cases c)
  case True
  then show ?thesis using final_verification_clicks [of pg E url c d] by (simp add: verify_def)
next
  case False
  obtain b pg1 where s: "check_unconfirmed E url pg = (b, pg1)"
    by (cases "check_unconfirmed E url pg")
  then have "actions pg1 = actions pg" using check_unconfirmed_actions [of E url pg] by simp
  then have 1: "only_clicks {} pg pg1" by (rule only_clicks_same)
  show ?thesis using False s 1 final_verification_clicks [of pg1 E url c d]
    by (cases b) (auto simp: verify_def intro: only_clicks_trans)
qed

lemma confirm_and_verify_dry_clicks:
  "only_clicks {} pg (snd (confirm_and_verify E url True d pg))"
proof (cases d)
  case False
  then show ?thesis by (simp add: confirm_and_verify_def only_clicks_refl)
next
  case True
  obtain c pg1 where s: "confirm_deletion E True pg = (c, pg1)"
    by (cases "confirm_deletion E True pg")
  then have "actions pg1 = actions pg" using confirm_deletion_dry_actions [of E pg] by simp
  then have 1: "only_clicks {} pg pg1" by (rule only_clicks_same)
  show ?thesis using True s 1 verify_clicks [of pg1 E url c d]
    by (auto simp: confirm_and_verify_def intro: only_clicks_trans)
qed

lemma safe_click_first_dry_actionsD:
  "safe_click_first E True t p ls pg = (b, pg') \<Longrightarrow> actions pg' = actions pg"
  using safe_click_first_dry_actions [of E t p ls pg] by simp

lemma delete_other_dry_clicks:
  "only_clicks {} pg (snd (delete_other E url True pg))"
proof -
  obtain b pg1 where m: "open_menu E True pg = (b, pg1)" by (cases "open_menu E True pg")
  then have a1: "actions pg1 = actions pg" using open_menu_dry_actions [of E pg] by simp
  obtain b2 pg2 where s2: "safe_click_first E True 1500 1000 delete_image_selectors pg1 = (b2, pg2)"
    by (cases "safe_click_first E True 1500 1000 delete_image_selectors pg1")
  then have a2: "actions pg2 = actions pg"
    using safe_click_first_dry_actions [of E 1500 1000 delete_image_selectors pg1] a1 by simp
  obtain b3 pg3 where s3: "(if \<not> b2 then safe_click_first E True 1500 1000 [delete_image_menuitem] pg2
       else (True, pg2)) = (b3, pg3)"
    by (cases "(if \<not> b2 then safe_click_first E True 1500 1000 [delete_image_menuitem] pg2 else (True, pg2))")
  then have a3: "actions pg3 = actions pg"
    using a2 by (auto split: if_splits simp del: safe_click_first.simps
        dest!: safe_click_first_dry_actionsD)
  obtain b4 pg4 where s4: "safe_click_first E True 2000 1000 delete_from_account_selectors pg3 = (b4, pg4)"
    by (cases "safe_click_first E True 2000 1000 delete_from_account_selectors pg3")
  then have a4: "actions pg4 = actions pg"
    using safe_click_first_dry_actions [of E 2000 1000 delete_from_account_selectors pg3] a3 by simp
  obtain b5 pg5 where s5: "(if \<not> b4 then safe_click_first E True 2000 1000 [delete_from_account_role] pg4
       else (True, pg4)) = (b5, pg5)"
    by (cases "(if \<not> b4 then safe_click_first E True 2000 1000 [delete_from_account_role] pg4 else (True, pg4))")
  then have a5: "actions pg5 = actions pg"
    using a4 by (auto split: if_splits simp del: safe_click_first.simps
        dest!: safe_click_first_dry_actionsD)
  have "snd (delete_other E url True pg) = pg1 \<or> snd (delete_other E url True pg) = pg3 \<or>
        snd (delete_other E url True pg) = snd (confirm_and_verify E url True b5 pg5)"
    using m s2 s3 s4 s5
    by (cases b) (auto simp: delete_other_def Let_def simp del: safe_click_first.simps)
  then show ?thesis
    using only_clicks_same [OF a1, of "{}"] only_clicks_same [OF a3, of "{}"]
      only_clicks_same [OF a5, of "{}"] confirm_and_verify_dry_clicks [of pg5 E url b5]
    by (auto intro: only_clicks_trans)
qed

lemma safe_goto_clicks:
  "only_clicks {} pg (case safe_goto E url t pg of Inl pg1 \<Rightarrow> pg1 | Inr pg1 \<Rightarrow> pg1)"
proof -
  obtain r pg1 where g: "goto E url True t pg = (r, pg1)" by (cases "goto E url True t pg")
  have 1: "only_clicks {} pg pg1" using only_clicks_goto [of "{}" pg E url True t] g by simp
  obtain r2 pg2 where g2: "goto E url False t pg1 = (r2, pg2)" by (cases "goto E url False t pg1")
  have 2: "only_clicks {} pg pg2"
    using only_clicks_goto [of "{}" pg1 E url False t] g2 1 by (auto intro: only_clicks_trans)
  show ?thesis using g g2 1 2 only_clicks_sleep [of "{}" pg1 E 400] only_clicks_sleep [of "{}" pg2 E 400]
    by (auto simp: safe_goto_def split: goto_result.splits intro: only_clicks_trans)
qed

lemma delete_one_dry_only:
  "only_clicks (insert delete_image_button (set cancel_controls)) pg
     (resulting_page (delete_one E href True pg))"
proof -
  let ?A = "insert delete_image_button (set cancel_controls)"
  let ?url = "''https://imgur.com'' @ href"
  note g = safe_goto_clicks [of pg E ?url 20000]
  show ?thesis
  proof (cases "safe_goto E ?url 20000 pg")
    case (Inl pg1)
    then have "resulting_page (delete_one E href True pg) = pg1"
      unfolding delete_one_def Let_def resulting_page_def by simp
    then show ?thesis using g Inl by (auto intro: only_clicks_mono)
  next
    case (Inr pg1)
    let ?pg2 = "sleep E 800 pg1"
    have 1: "only_clicks ?A pg ?pg2"
      using g Inr only_clicks_sleep [of "{}" pg1 E 800]
      by (auto intro: only_clicks_trans only_clicks_mono)
    have r: "resulting_page (delete_one E href True pg) =
        (if is_image href then snd (delete_image E True ?pg2)
         else if is_album href then snd (delete_album E True ?pg2)
         else snd (delete_other E ?url True ?pg2))"
      using Inr unfolding delete_one_def Let_def resulting_page_def
      by (simp split: prod.splits)
    have 2: "only_clicks ?A ?pg2 (resulting_page (delete_one E href True pg))"
      unfolding r
      using delete_image_dry_only [of ?pg2 E]
        only_clicks_same [OF delete_album_dry_actions [of E ?pg2], of ?A]
        only_clicks_mono [OF delete_other_dry_clicks [of ?pg2 E ?url], of ?A]
      by simp
    from 1 2 show ?thesis by (rule only_clicks_trans)
  qed
qed

lemma controls_disjoint:
  "insert delete_image_button (set cancel_controls) \<inter> set affirmative_controls = {}"
  by (simp add: cancel_controls_def affirmative_controls_def cancel_selectors_def cancel_role_def
      delete_image_button_def yes_delete_it_button_def confirmation_selectors_def
      delete_from_account_selectors_def delete_from_account_role_def confirm_selectors_def
      confirm_roles_def)

lemma delete_image_dry_result:
  "fst (delete_image E True pg) =
     (if (case is_visible E delete_image_button (Some 3000) pg of
            (Some True, pg1) \<Rightarrow> fst (click E delete_image_button 3000 pg1)
          | (_, pg1) \<Rightarrow> False)
      then (True, 1) else (False, 0))"
  by (auto simp: delete_image_def dismiss_dialog_def Let_def
      split: prod.splits option.splits bool.splits)

lemma delete_post_container_result:
  "fst (delete_post_container E dry_run pg) = fst (click_delete_post E dry_run (sleep E 500 pg))"
  by (auto simp: delete_post_container_def split: prod.splits)








subsection \<open>The image count plays no part\<close>

lemma upd_sleep [simp]: "sleep (E\<lparr>e_all_count := c\<rparr>) ms pg = sleep E ms pg"
  by (simp add: sleep_def)

lemma upd_goto [simp]: "goto (E\<lparr>e_all_count := c\<rparr>) url w t pg = goto E url w t pg"
  by (simp add: goto_def)

lemma upd_safe_goto [simp]: "safe_goto (E\<lparr>e_all_count := c\<rparr>) url t pg = safe_goto E url t pg"
  by (simp add: safe_goto_def split: prod.splits goto_result.splits)

lemma upd_safe_click [simp]:
  "safe_click (E\<lparr>e_all_count := c\<rparr>) l d t pg = safe_click E l d t pg"
  by (simp add: safe_click_def is_visible_def click_def split: prod.splits option.splits bool.splits)

lemma upd_safe_click_first [simp]:
  "safe_click_first (E\<lparr>e_all_count := c\<rparr>) d t p ls pg = safe_click_first E d t p ls pg"
  by (induction ls arbitrary: pg) (simp_all split: prod.splits bool.splits)

lemma upd_delete_album:
  "delete_album (E\<lparr>e_all_count := c\<rparr>) d pg = delete_album E d pg"
  by (simp add: delete_album_def delete_post_container_def click_delete_post_def Let_def
      del: safe_click_first.simps split: prod.splits bool.splits)

lemma album_kind: "classify href = Album \<Longrightarrow> \<not> is_image href \<and> is_album href"
  by (auto simp: classify_def split: if_splits)

lemma upd_delete_one_album:
  assumes "classify href = Album"
  shows "delete_one (E\<lparr>e_all_count := c\<rparr>) href d pg = delete_one E href d pg"
  using album_kind [OF assms] unfolding delete_one_def Let_def
  by (simp add: upd_delete_album del: append.simps split: sum.splits)

lemma delete_one_album_Inr:
  assumes "classify href = Album" and "delete_one E href d pg = Inr (r, pg')"
  shows "\<exists>pg0. r = (fst (delete_post_container E d pg0), 0)"
proof -
  from delete_one_Inr [OF assms(2)] album_kind [OF assms(1)]
  obtain pg2 where "(r, pg') = delete_album E d pg2" by auto
  then have "r = fst (delete_album E d pg2)" by (metis fst_conv)
  then show ?thesis using delete_album_outcome [of E d pg2] by auto
qed

subsection \<open>Album deletion on the simulated site\<close>

lemma site_delete_album:
  "delete_album (site_engine S) dry_run pg =
     (case find (s_visible S (fst (world pg))) (delete_post_selectors @ [delete_post_role]) of
        None \<Rightarrow> ((False, 0), pg)
      | Some l \<Rightarrow>
          ((True, 0),
           if dry_run then pg
           else pg\<lparr>actions := actions pg @ Click l #
                  (case find (s_visible S (fst (world pg))) confirmation_selectors of
                     None \<Rightarrow> [] | Some c \<Rightarrow> [Click c])\<rparr>))"
  by (simp add: delete_album_def delete_post_container_def site_click_delete_post
      site_safe_click_first Let_def split: option.splits prod.splits)

lemma grid_album_controls:
  \<open>find (s_visible (grid_site as) ''https://imgur.com/a/1'')
     (delete_post_selectors @ [delete_post_role]) = Some (Css ''button:has-text("Delete post")'')\<close>
  \<open>find (s_visible (grid_site as) ''https://imgur.com/a/1'') confirmation_selectors = None\<close>
  \<open>find (s_visible (grid_site as) ''https://imgur.com/a/9'')
     (delete_post_selectors @ [delete_post_role]) = None\<close>
  by (simp_all add: grid_site_def delete_post_selectors_def confirmation_selectors_def
      delete_post_role_def)

lemma kinds9: "\<not> is_image ''/a/9''" "is_album ''/a/9''"
  by (simp_all add: is_image_def is_album_def startswith_def)

lemma grid_album_live:
  \<open>delete_one (site_engine (grid_site as)) ''/a/1'' False pg =
     Inr ((True, 0), \<lparr>world = (''https://imgur.com/a/1'', Suc (snd (world pg))),
                     actions = actions pg @ [Goto ''https://imgur.com/a/1'',
                        Click (Css ''button:has-text("Delete post")'')]\<rparr>)\<close>
  by (simp add: site_delete_one kinds site_delete_album grid_album_controls)

lemma grid_album_missing_dry:
  \<open>delete_one (site_engine (grid_site as)) ''/a/9'' True pg =
     Inr ((False, 0), \<lparr>world = (''https://imgur.com/a/9'', Suc (snd (world pg))),
                      actions = actions pg @ [Goto ''https://imgur.com/a/9'']\<rparr>)\<close>
  by (simp add: site_delete_one kinds9 site_delete_album grid_album_controls)


section \<open>The album driver\<close>

text \<open>
  C2: for an href that takes the album branch, every outcome that \<open>delete_one\<close> returns is
  \<open>(True, 0)\<close> or \<open>(False, 0)\<close>, namely the result of \<open>delete_post_container\<close> paired with 0;
  the number of images the engine reports for the album changes nothing.
\<close>

theorem C2_album_outcome:
  assumes "classify href = Album"
  shows "delete_one (E\<lparr>e_all_count := c\<rparr>) href dry_run pg = delete_one E href dry_run pg \<and>
         (\<forall>r pg'. delete_one E href dry_run pg = Inr (r, pg') \<longrightarrow>
            (r = (True, 0) \<or> r = (False, 0)) \<and>
            (\<exists>pg0. r = (fst (delete_post_container E dry_run pg0), 0)))"
proof (intro conjI allI impI)
  show "delete_one (E\<lparr>e_all_count := c\<rparr>) href dry_run pg = delete_one E href dry_run pg"
    using assms by (rule upd_delete_one_album)
next
  fix r pg' assume d: "delete_one E href dry_run pg = Inr (r, pg')"
  from delete_one_album_Inr [OF assms d]
  show ex: "\<exists>pg0. r = (fst (delete_post_container E dry_run pg0), 0)" .
  then obtain pg0 where "r = (fst (delete_post_container E dry_run pg0), 0)" ..
  then show "r = (True, 0) \<or> r = (False, 0)"
    by (cases "fst (delete_post_container E dry_run pg0)") simp_all
qed

theorem C2_album_outcome_witness:
  \<open>classify ''/a/1'' = Album \<and>
   delete_one (site_engine (grid_site [])) ''/a/1'' False blank_page =
     Inr ((True, 0), \<lparr>world = (''https://imgur.com/a/1'', 1),
                     actions = [Goto ''https://imgur.com/a/1'',
                                Click (Css ''button:has-text("Delete post")'')]\<rparr>) \<and>
   delete_one ((site_engine (grid_site []))\<lparr>e_all_count := \<lambda>sel w. Some 7\<rparr>) ''/a/1'' False
       blank_page =
     Inr ((True, 0), \<lparr>world = (''https://imgur.com/a/1'', 1),
                     actions = [Goto ''https://imgur.com/a/1'',
                                Click (Css ''button:has-text("Delete post")'')]\<rparr>)\<close>
proof -
  have k: "classify ''/a/1'' = Album" by (simp add: classify_def kinds)
  from C2_album_outcome [where E = "site_engine (grid_site [])" and c = "\<lambda>sel w. Some 7"
      and dry_run = False and pg = blank_page, OF k]
  show ?thesis using k by (simp add: grid_album_live blank_page_def)
qed




section \<open>Dry-run mode\<close>

text \<open>
  C4 (as stated, refuted): in dry-run mode the image driver clicks the "Delete image" button,
  which is not a cancel control, before it clicks "Cancel"; and on an album page without a
  "Delete post" control the dry-run outcome is \<open>(False, 0)\<close>, not a success.
\<close>

theorem C4_counterexample:
  \<open>delete_one (site_engine (grid_site [])) ''/IMAGE01'' True blank_page =
     Inr ((True, 1), \<lparr>world = (''https://imgur.com/IMAGE01'', 1),
                     actions = [Goto ''https://imgur.com/IMAGE01'', Click delete_image_button,
                                Click (Css ''button:has-text("Cancel")'')]\<rparr>) \<and>
   delete_image_button \<notin> set cancel_controls \<and>
   delete_one (site_engine (grid_site [])) ''/a/9'' True blank_page =
     Inr ((False, 0), \<lparr>world = (''https://imgur.com/a/9'', 1),
                      actions = [Goto ''https://imgur.com/a/9'']\<rparr>)\<close>
  by (simp add: grid_image_dry grid_album_missing_dry blank_page_def cancel_controls_def
      cancel_selectors_def cancel_role_def delete_image_button_def)

text \<open>
  C4 (amended): in dry-run mode \<open>delete_one\<close> clicks nothing but the image page's
  "Delete image" button (which opens the dialog) and the cancel controls; in particular it
  clicks none of the affirmative controls. The image driver reports \<open>(True, 1)\<close> exactly when
  the "Delete image" button was visible and its click returned, the album driver reports
  \<open>(True, 0)\<close> exactly when a "Delete post" control was found; otherwise they report
  \<open>(False, 0)\<close>.
\<close>

theorem C4_dry_run_clicks:
  "(\<exists>ext. actions (resulting_page (delete_one E href True pg)) = actions pg @ ext \<and>
          set (clicks ext) \<subseteq> insert delete_image_button (set cancel_controls) \<and>
          set (clicks ext) \<inter> set affirmative_controls = {}) \<and>
   fst (delete_image E True pg) =
     (if (case is_visible E delete_image_button (Some 3000) pg of
            (Some True, pg1) \<Rightarrow> fst (click E delete_image_button 3000 pg1)
          | (_, pg1) \<Rightarrow> False)
      then (True, 1) else (False, 0)) \<and>
   fst (delete_album E True pg) =
     (fst (click_delete_post E True (sleep E 500 (sleep E 1200 pg))), 0)"
proof (intro conjI)
  from delete_one_dry_only [of pg E href] obtain ext where
    e: "actions (resulting_page (delete_one E href True pg)) = actions pg @ ext"
       "set (clicks ext) \<subseteq> insert delete_image_button (set cancel_controls)"
    unfolding only_clicks_def by blast
  from e(2) controls_disjoint have "set (clicks ext) \<inter> set affirmative_controls = {}" by blast
  with e show "\<exists>ext. actions (resulting_page (delete_one E href True pg)) = actions pg @ ext \<and>
          set (clicks ext) \<subseteq> insert delete_image_button (set cancel_controls) \<and>
          set (clicks ext) \<inter> set affirmative_controls = {}" by blast
  show "fst (delete_image E True pg) =
     (if (case is_visible E delete_image_button (Some 3000) pg of
            (Some True, pg1) \<Rightarrow> fst (click E delete_image_button 3000 pg1)
          | (_, pg1) \<Rightarrow> False)
      then (True, 1) else (False, 0))"
    by (rule delete_image_dry_result)
  show "fst (delete_album E True pg) =
     (fst (click_delete_post E True (sleep E 500 (sleep E 1200 pg))), 0)"
    using delete_post_container_result [of E True] delete_album_outcome [of E True pg] by simp
qed

theorem C4_dry_run_clicks_witness:
  \<open>clicks (actions (resulting_page
      (delete_one (site_engine (grid_site [])) ''/IMAGE01'' True blank_page))) =
     [delete_image_button, Css ''button:has-text("Cancel")''] \<and>
   set [delete_image_button, Css ''button:has-text("Cancel")''] \<subseteq>
     insert delete_image_button (set cancel_controls) \<and>
   set [delete_image_button, Css ''button:has-text("Cancel")''] \<inter> set affirmative_controls = {}\<close>
proof -
  have r: \<open>actions (resulting_page
      (delete_one (site_engine (grid_site [])) ''/IMAGE01'' True blank_page)) =
     [Goto ''https://imgur.com/IMAGE01'', Click delete_image_button,
      Click (Css ''button:has-text("Cancel")'')]\<close>
    by (simp add: grid_image_dry resulting_page_def blank_page_def)
  from C4_dry_run_clicks [of "site_engine (grid_site [])" "''/IMAGE01''" blank_page]
  obtain ext where e:
    "actions (resulting_page (delete_one (site_engine (grid_site [])) ''/IMAGE01'' True blank_page)) =
       actions blank_page @ ext"
    "set (clicks ext) \<subseteq> insert delete_image_button (set cancel_controls)"
    "set (clicks ext) \<inter> set affirmative_controls = {}"
    by blast
  from e(1) r have \<open>ext = [Goto ''https://imgur.com/IMAGE01'', Click delete_image_button,
      Click (Css ''button:has-text("Cancel")'')]\<close>
    by (simp add: blank_page_def)
  with e(2,3) r show ?thesis by simp
qed

section \<open>The verification stage\<close>




lemma verify_redirected:
  assumes "\<not> confirmed" and "e_content E (world (sleep E 2000 pg)) = Some c"
    and "\<not> removal_text (lower c)" and "\<not> py_in url (e_url E (world (sleep E 2000 pg)))"
    and "wait_for_load_state E 3000 (sleep E 2000 pg) = (True, pg2)"
    and "e_content E (world pg2) = Some c2" and "\<not> py_in ''404'' (lower c2)"
  shows "fst (verify E url confirmed deleted pg) = (True, 1)"
  using assms by (simp add: verify_def check_unconfirmed_def Let_def)





lemma menu_reads [simp]:
  "s_content menu_site url = Some ''<html>My post</html>''"
  "s_loads menu_site n url = (if n = 0 then Loaded else TimeoutError)"
  by (simp_all add: menu_site_def)









section \<open>Progress and the cap\<close>

lemma process_links_with_single:
  assumes "D (link_href l) (rs_page st) = Inr ((ok, n), pg1)" and "ok \<or> n = 0"
  shows "processed (after_links (process_links_with D E u cap [l] st)) =
           processed st + (if n \<noteq> 0 then n else 1)"
  using assms by (auto simp: Let_def after_links_def count_outcome_def split: sum.splits)

lemma process_links_single:
  assumes "delete_one E (link_href l) dry_run (rs_page st) = Inr ((ok, n), pg1)"
  shows "processed (after_links (process_links E u dry_run cap [l] st)) =
           processed st + (if n \<noteq> 0 then n else 1) \<and>
         count_outcome (ok, n) (processed st) = processed st + (if n \<noteq> 0 then n else 1)"
proof -
  from delete_one_outcome [OF assms] have n: "n = 0 \<or> n = 1" by auto
  from process_links_step [OF assms, of u cap "[]"]
  have "processed (after_links (process_links E u dry_run cap [l] st)) = processed st + 1"
    by (auto simp: after_links_def split: if_splits)
  moreover have "count_outcome (ok, n) (processed st) = processed st + 1"
    using count_outcome_one [OF delete_one_outcome [OF assms]] .
  ultimately show ?thesis using n by auto
qed

lemma process_links_break:
  assumes "cap \<le> processed st + 1"
  shows "process_links E u dry_run cap (l # ls) st = process_links E u dry_run cap [l] st"
proof (cases "delete_one E (link_href l) dry_run (rs_page st)")
  case (Inl pg1)
  then show ?thesis by simp
next
  case (Inr x)
  obtain r pg1 where x: "x = (r, pg1)" by (cases x)
  have c: "count_outcome r (processed st) = processed st + 1"
    using count_outcome_one [OF delete_one_outcome [OF Inr [unfolded x]]] .
  show ?thesis using Inr x c assms
    by (auto simp: Let_def split: sum.splits)
qed

lemma main_loop_at_cap:
  "cap \<le> processed st \<Longrightarrow> main_loop (Suc k) E u dry_run cap st = Some (CapReached, st)"
  by simp

lemma main_loop_after_reaching_cap:
  assumes "processed st < cap" and "cap \<le> processed (after_step (loop_body E u dry_run cap st))"
  shows "\<exists>ex. main_loop (Suc (Suc k)) E u dry_run cap st =
           Some (ex, after_step (loop_body E u dry_run cap st))"
  using assms by (cases "loop_body E u dry_run cap st") simp_all

lemma run_processed:
  assumes "run k E u dry_run cap w = Some (ex, st')" and "0 \<le> cap"
  shows "0 \<le> processed st' \<and> processed st' \<le> cap \<and> (ex = CapReached \<longrightarrow> processed st' = cap)"
proof -
  let ?st = "\<lparr>rs_page = \<lparr>world = w, actions = []\<rparr>, processed = 0, seen_heights = {},
                journal = []\<rparr>"
  have "(\<exists>pg. ex = Raised \<and> st' = ?st\<lparr>rs_page := pg\<rparr>) \<or>
        (\<exists>pg. main_loop k E u dry_run cap (?st\<lparr>rs_page := pg\<rparr>) = Some (ex, st'))"
    using assms(1) by (auto simp: run_def Let_def split: sum.splits)
  then show ?thesis
  proof
    assume "\<exists>pg. ex = Raised \<and> st' = ?st\<lparr>rs_page := pg\<rparr>"
    then show ?thesis using assms(2) by auto
  next
    assume "\<exists>pg. main_loop k E u dry_run cap (?st\<lparr>rs_page := pg\<rparr>) = Some (ex, st')"
    then obtain pg where "main_loop k E u dry_run cap (?st\<lparr>rs_page := pg\<rparr>) = Some (ex, st')" ..
    from main_loop_processed [OF this] assms(2) show ?thesis by auto
  qed
qed

section \<open>How the loop is left\<close>










text \<open>The journal has one entry per unit of \<open>processed\<close>.\<close>

lemma process_links_journal:
  "int (length (journal st)) = processed st \<Longrightarrow>
   int (length (journal (after_links (process_links E u dry_run cap ls st)))) =
     processed (after_links (process_links E u dry_run cap ls st))"
  using process_links_processed [of st E u dry_run cap ls] by auto

lemma loop_body_journal:
  assumes "int (length (journal st)) = processed st"
  shows "int (length (journal (after_step (loop_body E u dry_run cap st)))) =
     processed (after_step (loop_body E u dry_run cap st))"
proof (cases "find_post_links_sorted E (rs_page st)")
  case None
  with assms show ?thesis by (simp add: loop_body_def)
next
  case (Some links)
  show ?thesis
  proof (cases "links = []")
    case True
    with Some assms show ?thesis
      by (simp add: loop_body_def load_more_processed load_more_journal)
  next
    case False
    show ?thesis
      using Some False process_links_journal [OF assms, of E u dry_run cap links]
      by (auto simp: loop_body_def after_links_def load_more_processed load_more_journal
          split: sum.splits)
  qed
qed

lemma main_loop_journal:
  "main_loop k E u dry_run cap st = Some (ex, st') \<Longrightarrow>
   int (length (journal st)) = processed st \<Longrightarrow> int (length (journal st')) = processed st'"
proof (induction k arbitrary: st)
  case 0
  then show ?case by simp
next
  case (Suc k)
  show ?case
  proof (cases "processed st < cap")
    case False
    with Suc.prems show ?thesis by auto
  next
    case True
    note j = loop_body_journal [OF Suc.prems(2), of E u dry_run cap]
    show ?thesis
    proof (cases "loop_body E u dry_run cap st")
      case (Continue st1)
      with Suc.prems True have "main_loop k E u dry_run cap st1 = Some (ex, st')" by simp
      from Suc.IH [OF this] j Continue show ?thesis by simp
    next
      case (Break e1 st1)
      with Suc.prems True j show ?thesis by simp
    qed
  qed
qed

lemma run_journal:
  assumes "run k E u dry_run cap w = Some (ex, st')"
  shows "int (length (journal st')) = processed st'"
proof -
  let ?st = "\<lparr>rs_page = \<lparr>world = w, actions = []\<rparr>, processed = 0, seen_heights = {},
                journal = []\<rparr>"
  have "(\<exists>pg. ex = Raised \<and> st' = ?st\<lparr>rs_page := pg\<rparr>) \<or>
        (\<exists>pg. main_loop k E u dry_run cap (?st\<lparr>rs_page := pg\<rparr>) = Some (ex, st'))"
    using assms(1) by (auto simp: run_def Let_def split: sum.splits)
  then show ?thesis
  proof
    assume "\<exists>pg. ex = Raised \<and> st' = ?st\<lparr>rs_page := pg\<rparr>"
    then show ?thesis by auto
  next
    assume "\<exists>pg. main_loop k E u dry_run cap (?st\<lparr>rs_page := pg\<rparr>) = Some (ex, st')"
    then obtain pg where "main_loop k E u dry_run cap (?st\<lparr>rs_page := pg\<rparr>) = Some (ex, st')" ..
    from main_loop_journal [OF this] show ?thesis by simp
  qed
qed

section \<open>The scenarios\<close>

lemma grid_loop_body_xy:
  "loop_body (site_engine (grid_site anchors_xy)) ''u'' True 3 grid_start = Continue grid_final_xy"
proof -
  have links: "find_post_links_sorted (site_engine (grid_site anchors_xy)) (rs_page grid_start) =
     Some [(''/a/1'', 0, 0), (''/gallery/2'', 150, 0), (''/IMAGE01'', 0, 150)]"
    by (rule grid_links_xy) (simp add: grid_start_def)
  show ?thesis
    by (simp add: loop_body_def links grid_pass_xy site_load_more grid_final_xy_def
        del: process_links_simps)
qed

lemma grid_main_loop_xy:
  "main_loop (Suc (Suc k)) (site_engine (grid_site anchors_xy)) ''u'' True 3 grid_start =
     Some (CapReached, grid_final_xy)"
proof -
  have "processed grid_start = 0" "processed grid_final_xy = 3"
    by (simp_all add: grid_start_def grid_final_xy_def)
  then show ?thesis by (simp add: grid_loop_body_xy)
qed

lemma grid_run_start:
  "run k (site_engine (grid_site as)) ''u'' True cap ([], 0) =
     main_loop k (site_engine (grid_site as)) ''u'' True cap grid_start"
  by (simp add: run_def grid_go_to_posts site_scroll_to_top grid_start_def)

lemma links_yx:
  "links_sorted anchors_yx = [(''/a/1'', 0, 0), (''/IMAGE01'', 150, 0), (''/gallery/2'', 0, 150)]"
  by code_simp

lemma grid_links_yx:
  "fst (world pg) = get_posts_url ''u'' \<Longrightarrow>
   find_post_links_sorted (site_engine (grid_site anchors_yx)) pg =
     Some [(''/a/1'', 0, 0), (''/IMAGE01'', 150, 0), (''/gallery/2'', 0, 150)]"
  by (simp add: find_post_links_sorted_def links_yx grid_site_def get_posts_url_def)

lemma grid_loop_body_yx:
  "loop_body (site_engine (grid_site anchors_yx)) ''u'' True 3 grid_start = Continue grid_final_yx"
proof -
  have links: "find_post_links_sorted (site_engine (grid_site anchors_yx)) (rs_page grid_start) =
     Some [(''/a/1'', 0, 0), (''/IMAGE01'', 150, 0), (''/gallery/2'', 0, 150)]"
    by (rule grid_links_yx) (simp add: grid_start_def)
  have pass: \<open>process_links (site_engine (grid_site anchors_yx)) ''u'' True 3
      [(''/a/1'', 0, 0), (''/IMAGE01'', 150, 0), (''/gallery/2'', 0, 150)] grid_start =
    Inr \<lparr>rs_page = \<lparr>world = (get_posts_url ''u'', 7),
                     actions = [Goto (get_posts_url ''u''), ScrollTo Top,
                       Goto ''https://imgur.com/a/1'', Goto (get_posts_url ''u''), ScrollTo Top,
                       Goto ''https://imgur.com/IMAGE01'', Click delete_image_button,
                       Click (Css ''button:has-text("Cancel")''),
                       Goto (get_posts_url ''u''), ScrollTo Top,
                       Goto ''https://imgur.com/gallery/2'', Goto (get_posts_url ''u''),
                       ScrollTo Top]\<rparr>,
         processed = 3, seen_heights = {},
         journal = [(''/a/1'', True, 0), (''/IMAGE01'', True, 1), (''/gallery/2'', True, 0)]\<rparr>\<close>
    by (simp add: grid_start_def link_href_def grid_album_dry grid_gallery_dry grid_image_dry
      grid_go_to_posts site_scroll_to_top count_outcome_def)
  show ?thesis
    by (simp add: loop_body_def links pass site_load_more grid_final_yx_def
        del: process_links_simps)
qed

lemma grid_main_loop_yx:
  "main_loop (Suc (Suc k)) (site_engine (grid_site anchors_yx)) ''u'' True 3 grid_start =
     Some (CapReached, grid_final_yx)"
proof -
  have "processed grid_start = 0" "processed grid_final_yx = 3"
    by (simp_all add: grid_start_def grid_final_yx_def)
  then show ?thesis by (simp add: grid_loop_body_yx)
qed










section \<open>Properties of the loop\<close>

text \<open>
  C3: processing one link adds \<open>images_deleted\<close> to \<open>processed\<close> when it is not zero and 1
  otherwise, for every outcome of the data model (\<open>images_deleted = 0\<close> when \<open>success\<close> is
  false), whatever operation produces it; the loop of the program is that loop with
  \<open>delete_one\<close> as the operation. \<open>processed\<close> never decreases over the links of a pass, over
  an iteration of the loop, or over a run of the loop; once \<open>processed\<close> reaches the cap the
  remaining links of the pass are skipped and the loop returns: at once when its test finds
  the cap reached, and within one further iteration when the cap is reached inside an
  iteration.
\<close>

theorem C3_progress:
  "(D (link_href l) (rs_page st) = Inr ((success, images_deleted), pgD) \<and>
    (success \<or> images_deleted = 0) \<longrightarrow>
      processed (after_links (process_links_with D E u cap [l] st)) =
        processed st + (if images_deleted \<noteq> 0 then images_deleted else 1)) \<and>
   process_links E u dry_run cap ls st =
     process_links_with (\<lambda>href pg. delete_one E href dry_run pg) E u cap ls st \<and>
   (delete_one E (link_href l) dry_run (rs_page st) = Inr ((ok, n), pga) \<longrightarrow>
      processed (after_links (process_links E u dry_run cap [l] st)) =
        processed st + (if n \<noteq> 0 then n else 1)) \<and>
   processed st \<le> processed (after_links (process_links E u dry_run cap ls st)) \<and>
   processed st \<le> processed (after_step (loop_body E u dry_run cap st)) \<and>
   (main_loop k E u dry_run cap st = Some (ex, st') \<longrightarrow> processed st \<le> processed st') \<and>
   (cap \<le> processed st + 1 \<longrightarrow>
      process_links E u dry_run cap (l # ls) st = process_links E u dry_run cap [l] st) \<and>
   (cap \<le> processed st \<longrightarrow> main_loop (Suc k) E u dry_run cap st = Some (CapReached, st)) \<and>
   (processed st < cap \<and> cap \<le> processed (after_step (loop_body E u dry_run cap st)) \<longrightarrow>
      (\<exists>ex. main_loop (Suc (Suc k)) E u dry_run cap st =
         Some (ex, after_step (loop_body E u dry_run cap st))))"
proof (intro conjI impI)
  assume "D (link_href l) (rs_page st) = Inr ((success, images_deleted), pgD) \<and>
    (success \<or> images_deleted = 0)"
  then show "processed (after_links (process_links_with D E u cap [l] st)) =
        processed st + (if images_deleted \<noteq> 0 then images_deleted else 1)"
    using process_links_with_single [of D l st success images_deleted pgD E u cap] by blast
next
  show "process_links E u dry_run cap ls st =
     process_links_with (\<lambda>href pg. delete_one E href dry_run pg) E u cap ls st"
    by (simp add: process_links_def)
next
  assume "delete_one E (link_href l) dry_run (rs_page st) = Inr ((ok, n), pga)"
  from process_links_single [OF this]
  show "processed (after_links (process_links E u dry_run cap [l] st)) =
        processed st + (if n \<noteq> 0 then n else 1)" by blast
next
  show "processed st \<le> processed (after_links (process_links E u dry_run cap ls st))"
    using process_links_processed [of st E u dry_run cap ls] by blast
  show "processed st \<le> processed (after_step (loop_body E u dry_run cap st))"
    using loop_body_processed [of st E u dry_run cap] by blast
next
  assume "main_loop k E u dry_run cap st = Some (ex, st')"
  from main_loop_processed [OF this] show "processed st \<le> processed st'" by blast
next
  assume "cap \<le> processed st + 1"
  then show "process_links E u dry_run cap (l # ls) st = process_links E u dry_run cap [l] st"
    by (rule process_links_break)
next
  assume "cap \<le> processed st"
  then show "main_loop (Suc k) E u dry_run cap st = Some (CapReached, st)"
    by (rule main_loop_at_cap)
next
  assume "processed st < cap \<and> cap \<le> processed (after_step (loop_body E u dry_run cap st))"
  then show "\<exists>ex. main_loop (Suc (Suc k)) E u dry_run cap st =
         Some (ex, after_step (loop_body E u dry_run cap st))"
    using main_loop_after_reaching_cap [of st cap E u dry_run k] by blast
qed

theorem C3_progress_witness:
  "processed (after_links (process_links_with (\<lambda>href pg. Inr ((True, 5), pg))
      (site_engine (grid_site anchors_xy)) ''u'' 9 [(''/a/1'', 0, 0)] grid_start)) = 5 \<and>
   processed (after_links (process_links_with (\<lambda>href pg. Inr ((False, 0), pg))
      (site_engine (grid_site anchors_xy)) ''u'' 9 [(''/a/1'', 0, 0)] grid_start)) = 1 \<and>
   processed (after_links (process_links (site_engine (grid_site anchors_xy)) ''u'' True 3
      [(''/a/1'', 0, 0)] grid_start)) = 1 \<and>
   main_loop 2 (site_engine (grid_site anchors_xy)) ''u'' True 3 grid_start =
     Some (CapReached, grid_final_xy) \<and>
   processed grid_start \<le> processed grid_final_xy \<and>
   process_links (site_engine (grid_site anchors_xy)) ''u'' True 3
      [(''/a/1'', 0, 0), (''/gallery/2'', 150, 0)] grid_final_xy =
     process_links (site_engine (grid_site anchors_xy)) ''u'' True 3 [(''/a/1'', 0, 0)]
       grid_final_xy \<and>
   main_loop 1 (site_engine (grid_site anchors_xy)) ''u'' True 3 grid_final_xy =
     Some (CapReached, grid_final_xy)"
proof -
  let ?E = "site_engine (grid_site anchors_xy)"
  let ?D5 = "\<lambda>(href :: string) (pg :: (string \<times> nat) page). Inr ((True, 5 :: int), pg)
      :: (string \<times> nat) page + ((bool \<times> int) \<times> (string \<times> nat) page)"
  let ?D0 = "\<lambda>(href :: string) (pg :: (string \<times> nat) page). Inr ((False, 0 :: int), pg)
      :: (string \<times> nat) page + ((bool \<times> int) \<times> (string \<times> nat) page)"
  have two: "(2::nat) = Suc (Suc 0)" and one: "(1::nat) = Suc 0" by simp_all
  have p: "processed grid_start = 0" "processed grid_final_xy = 3"
    by (simp_all add: grid_start_def grid_final_xy_def)
  have d: "delete_one ?E (link_href (''/a/1'', 0, 0)) True (rs_page grid_start) =
      Inr ((True, 0), \<lparr>world = (''https://imgur.com/a/1'', Suc (snd (world (rs_page grid_start)))),
                     actions = actions (rs_page grid_start) @ [Goto ''https://imgur.com/a/1'']\<rparr>)"
    by (simp add: link_href_def grid_album_dry)
  have m: "main_loop 2 ?E ''u'' True 3 grid_start = Some (CapReached, grid_final_xy)"
    unfolding two by (rule grid_main_loop_xy)
  note a = C3_progress [where E = ?E and l = "(''/a/1'', 0, 0)" and dry_run = True
      and st = grid_start and ok = True and n = 0 and u = "''u''" and cap = 3 and k = 2
      and ex = CapReached and st' = grid_final_xy and ls = "[]"
      and pga = "\<lparr>world = (''https://imgur.com/a/1'', Suc (snd (world (rs_page grid_start)))),
                     actions = actions (rs_page grid_start) @ [Goto ''https://imgur.com/a/1'']\<rparr>"
      and D = ?D5 and success = True and images_deleted = 5 and pgD = "rs_page grid_start"]
  note b = C3_progress [where E = ?E and l = "(''/a/1'', 0, 0)" and ls = "[(''/gallery/2'', 150, 0)]"
      and dry_run = True and st = grid_final_xy and u = "''u''" and cap = 3 and k = 0
      and ok = True and n = 0 and pga = "rs_page grid_start" and ex = CapReached
      and st' = grid_final_xy
      and D = ?D5 and success = True and images_deleted = 5 and pgD = "rs_page grid_start"]
  note c = C3_progress [where E = ?E and l = "(''/a/1'', 0, 0)" and ls = "[]"
      and dry_run = True and st = grid_start and u = "''u''" and cap = 9 and k = 0
      and ok = True and n = 0 and pga = "rs_page grid_start" and ex = CapReached
      and st' = grid_final_xy
      and D = ?D5 and success = True and images_deleted = 5 and pgD = "rs_page grid_start"]
  note e = C3_progress [where E = ?E and l = "(''/a/1'', 0, 0)" and ls = "[]"
      and dry_run = True and st = grid_start and u = "''u''" and cap = 9 and k = 0
      and ok = True and n = 0 and pga = "rs_page grid_start" and ex = CapReached
      and st' = grid_final_xy
      and D = ?D0 and success = False and images_deleted = 0 and pgD = "rs_page grid_start"]
  from c have "processed (after_links (process_links_with ?D5 ?E ''u'' 9 [(''/a/1'', 0, 0)]
      grid_start)) = processed grid_start + (if (5::int) \<noteq> 0 then 5 else 1)" by blast
  with p have z5: "processed (after_links (process_links_with ?D5 ?E ''u'' 9 [(''/a/1'', 0, 0)]
      grid_start)) = 5" by simp
  from e have "processed (after_links (process_links_with ?D0 ?E ''u'' 9 [(''/a/1'', 0, 0)]
      grid_start)) = processed grid_start + (if (0::int) \<noteq> 0 then 0 else 1)" by blast
  with p have z0: "processed (after_links (process_links_with ?D0 ?E ''u'' 9 [(''/a/1'', 0, 0)]
      grid_start)) = 1" by simp
  from a d have "processed (after_links (process_links ?E ''u'' True 3 [(''/a/1'', 0, 0)]
      grid_start)) = processed grid_start + (if (0::int) \<noteq> 0 then 0 else 1)" by blast
  with p have 1: "processed (after_links (process_links ?E ''u'' True 3 [(''/a/1'', 0, 0)]
      grid_start)) = 1" by simp
  from a m have 2: "processed grid_start \<le> processed grid_final_xy" by blast
  have "(3::int) \<le> processed grid_final_xy + 1" "(3::int) \<le> processed grid_final_xy"
    using p by simp_all
  with b have 3: "process_links ?E ''u'' True 3 [(''/a/1'', 0, 0), (''/gallery/2'', 150, 0)]
      grid_final_xy = process_links ?E ''u'' True 3 [(''/a/1'', 0, 0)] grid_final_xy"
    and four: "main_loop (Suc 0) ?E ''u'' True 3 grid_final_xy = Some (CapReached, grid_final_xy)"
    by blast+
  from four have 4: "main_loop 1 ?E ''u'' True 3 grid_final_xy = Some (CapReached, grid_final_xy)"
    unfolding one .
  from z5 z0 1 m 2 3 4 show ?thesis by blast
qed

text \<open>
  C10: every outcome that \<open>delete_one\<close> returns has \<open>images_deleted\<close> 0 or 1, so a link adds
  exactly 1 to \<open>processed\<close>; the counter of a run equals the number of links processed; from
  a counter not above the cap the loop never ends above the cap, and when it ends because the
  cap is reached the counter equals the cap; so does a run, for any cap that is not negative.
\<close>

theorem C10_unit_increments:
  "(delete_one E href dry_run pg = Inr ((ok, n), pg') \<longrightarrow>
      (n = 0 \<or> n = 1) \<and> count_outcome (ok, n) p = p + 1) \<and>
   (processed st \<le> cap \<and> main_loop k E u dry_run cap st = Some (ex, st') \<longrightarrow>
      processed st' \<le> cap \<and> (ex = CapReached \<longrightarrow> processed st' = cap)) \<and>
   (0 \<le> cap \<and> run k E u dry_run cap w = Some (ex, st') \<longrightarrow>
      processed st' \<le> cap \<and> (ex = CapReached \<longrightarrow> processed st' = cap) \<and>
      processed st' = int (length (journal st')))"
proof (intro conjI impI)
  assume d: "delete_one E href dry_run pg = Inr ((ok, n), pg')"
  from delete_one_outcome [OF d] show "n = 0 \<or> n = 1" by auto
  from count_outcome_one [OF delete_one_outcome [OF d]]
  show "count_outcome (ok, n) p = p + 1" .
next
  assume a: "processed st \<le> cap \<and> main_loop k E u dry_run cap st = Some (ex, st')"
  then have m: "main_loop k E u dry_run cap st = Some (ex, st')" by blast
  from main_loop_processed [OF m] a show "processed st' \<le> cap" by blast
  assume "ex = CapReached"
  with main_loop_processed [OF m] a show "processed st' = cap" by auto
next
  assume a: "0 \<le> cap \<and> run k E u dry_run cap w = Some (ex, st')"
  then have r: "run k E u dry_run cap w = Some (ex, st')" and c: "0 \<le> cap" by blast+
  from run_processed [OF r c] show "processed st' \<le> cap" by blast
  from run_journal [OF r] show "processed st' = int (length (journal st'))" by simp
  assume "ex = CapReached"
  with run_processed [OF r c] show "processed st' = cap" by blast
qed

theorem C10_unit_increments_witness:
  "delete_one (site_engine (grid_site anchors_xy)) ''/IMAGE01'' True blank_page =
     Inr ((True, 1), \<lparr>world = (''https://imgur.com/IMAGE01'', 1),
        actions = [Goto ''https://imgur.com/IMAGE01'', Click delete_image_button,
                   Click (hd cancel_selectors)]\<rparr>) \<and>
   count_outcome (True, 1) 2 = 3 \<and>
   run 2 (site_engine (grid_site anchors_xy)) ''u'' True 3 ([], 0) =
     Some (CapReached, grid_final_xy) \<and>
   processed grid_final_xy = 3 \<and> length (journal grid_final_xy) = 3"
proof -
  let ?E = "site_engine (grid_site anchors_xy)"
  have two: "(2::nat) = Suc (Suc 0)" by simp
  have d: "delete_one ?E ''/IMAGE01'' True blank_page =
     Inr ((True, 1), \<lparr>world = (''https://imgur.com/IMAGE01'', 1),
        actions = [Goto ''https://imgur.com/IMAGE01'', Click delete_image_button,
                   Click (hd cancel_selectors)]\<rparr>)"
    by (simp add: grid_image_dry blank_page_def cancel_selectors_def)
  have r: "run 2 ?E ''u'' True 3 ([], 0) = Some (CapReached, grid_final_xy)"
    unfolding grid_run_start two by (rule grid_main_loop_xy)
  note a = C10_unit_increments [where E = ?E and href = "''/IMAGE01''" and dry_run = True
      and pg = blank_page and ok = True and n = 1 and p = 2 and cap = 3 and k = 2
      and u = "''u''" and w = "([], 0)" and ex = CapReached and st' = grid_final_xy
      and st = grid_start
      and pg' = "\<lparr>world = (''https://imgur.com/IMAGE01'', 1),
        actions = [Goto ''https://imgur.com/IMAGE01'', Click delete_image_button,
                   Click (hd cancel_selectors)]\<rparr>"]
  from a d have "count_outcome (True, 1) 2 = 2 + 1" by blast
  then have 1: "count_outcome (True, 1) 2 = 3" by simp
  have "(0::int) \<le> 3" by simp
  with a r have 2: "processed grid_final_xy = 3"
    and 3: "processed grid_final_xy = int (length (journal grid_final_xy))" by blast+
  from 2 3 have 4: "length (journal grid_final_xy) = 3" by simp
  from d 1 r 2 4 show ?thesis by blast
qed




text \<open>
  C9 (as stated, refuted): with the positions read as \<open>(x, y)\<close> the links are processed in the
  order \<open>/a/1\<close>, \<open>/gallery/2\<close>, \<open>/IMAGE01\<close>; and with either reading the last thing the loop does
  before it ends at the cap is a scroll to the bottom.
\<close>

theorem C9_counterexample:
  "run 2 (site_engine (grid_site anchors_xy)) ''u'' True 3 ([], 0) =
     Some (CapReached, grid_final_xy) \<and>
   map fst (journal grid_final_xy) = [''/a/1'', ''/gallery/2'', ''/IMAGE01''] \<and>
   last (actions (rs_page grid_final_xy)) = ScrollTo Bottom \<and>
   run 2 (site_engine (grid_site anchors_yx)) ''u'' True 3 ([], 0) =
     Some (CapReached, grid_final_yx) \<and>
   last (actions (rs_page grid_final_yx)) = ScrollTo Bottom"
proof -
  have two: "(2::nat) = Suc (Suc 0)" by simp
  have "run 2 (site_engine (grid_site anchors_xy)) ''u'' True 3 ([], 0) =
     Some (CapReached, grid_final_xy)"
    unfolding grid_run_start two by (rule grid_main_loop_xy)
  moreover have "run 2 (site_engine (grid_site anchors_yx)) ''u'' True 3 ([], 0) =
     Some (CapReached, grid_final_yx)"
    unfolding grid_run_start two by (rule grid_main_loop_yx)
  ultimately show ?thesis by (simp add: grid_final_xy_def grid_final_yx_def)
qed

text \<open>
  C9 (amended): on the grid with \<open>/a/1\<close>, \<open>/IMAGE01\<close>, \<open>/gallery/2\<close> at the \<open>(x, y)\<close> positions
  \<open>(0,0)\<close>, \<open>(0,150)\<close>, \<open>(150,0)\<close>, with cap 3 in dry-run mode, the loop processes \<open>/a/1\<close>,
  \<open>/gallery/2\<close>, \<open>/IMAGE01\<close> with outcomes \<open>(True, 0)\<close>, \<open>(True, 0)\<close>, \<open>(True, 1)\<close> and ends with
  \<open>processed = 3\<close> because the cap is reached, after one scroll to the bottom that follows the
  third link. With the positions read as \<open>(y, x)\<close> the order is \<open>/a/1\<close>, \<open>/IMAGE01\<close>,
  \<open>/gallery/2\<close> with outcomes \<open>(True, 0)\<close>, \<open>(True, 1)\<close>, \<open>(True, 0)\<close>, and the rest is the same.
  Two iterations of the loop suffice, and more change nothing.
\<close>

theorem C9_scenario:
  "run (Suc (Suc k)) (site_engine (grid_site anchors_xy)) ''u'' True 3 ([], 0) =
     Some (CapReached, grid_final_xy) \<and>
   journal grid_final_xy = [(''/a/1'', True, 0), (''/gallery/2'', True, 0), (''/IMAGE01'', True, 1)] \<and>
   processed grid_final_xy = 3 \<and>
   filter (\<lambda>a. a = ScrollTo Bottom) (actions (rs_page grid_final_xy)) = [ScrollTo Bottom] \<and>
   last (actions (rs_page grid_final_xy)) = ScrollTo Bottom \<and>
   run (Suc (Suc k)) (site_engine (grid_site anchors_yx)) ''u'' True 3 ([], 0) =
     Some (CapReached, grid_final_yx) \<and>
   journal grid_final_yx = [(''/a/1'', True, 0), (''/IMAGE01'', True, 1), (''/gallery/2'', True, 0)] \<and>
   processed grid_final_yx = 3 \<and>
   filter (\<lambda>a. a = ScrollTo Bottom) (actions (rs_page grid_final_yx)) = [ScrollTo Bottom] \<and>
   last (actions (rs_page grid_final_yx)) = ScrollTo Bottom"
proof -
  have "run (Suc (Suc k)) (site_engine (grid_site anchors_xy)) ''u'' True 3 ([], 0) =
     Some (CapReached, grid_final_xy)"
    unfolding grid_run_start by (rule grid_main_loop_xy)
  moreover have "run (Suc (Suc k)) (site_engine (grid_site anchors_yx)) ''u'' True 3 ([], 0) =
     Some (CapReached, grid_final_yx)"
    unfolding grid_run_start by (rule grid_main_loop_yx)
  ultimately show ?thesis by (simp add: grid_final_xy_def grid_final_yx_def)
qed

end
